theory Spec2Isabelle
  imports Main
begin

section \<open>Values of the document tree\<close>

text \<open>
  The store holds JSON-like JavaScript values. An object is the list of its own enumerable
  properties in enumeration order. An array is the list of its elements, where \<open>None\<close>
  is a hole (an index below \<open>length\<close> that is not a property), together with its
  non-index properties. Numbers are integers; \<open>undefined\<close> is never stored and is the
  \<open>None\<close> of a \<open>jv option\<close> wherever the source can read it. Members inherited from
  \<open>Object.prototype\<close> or \<open>Array.prototype\<close> and the \<open>length\<close> property of an
  array are not part of a value.
\<close>

datatype jv =
    JNull
  | JBool bool
  | JNum int
  | JStr string
  | JArr "jv option list" "(string \<times> jv) list"
  | JObj "(string \<times> jv) list"

datatype error =
    InvalidKey
  | TypeError
  | SchemaViolation string
  | HookFailed string
  | InvalidFilter string
  | UnknownOperator string
  | InvalidImport
  | Raised string

text \<open>\<open>typeof v === "object"\<close>: true of \<open>null\<close>, arrays and objects.\<close>

fun typeof_object :: "jv \<Rightarrow> bool" where
  "typeof_object JNull = True"
| "typeof_object (JArr es ps) = True"
| "typeof_object (JObj ps) = True"
| "typeof_object v = False"

fun is_container :: "jv \<Rightarrow> bool" where
  "is_container (JArr es ps) = True"
| "is_container (JObj ps) = True"
| "is_container v = False"


text \<open>JavaScript truthiness of a stored value.\<close>

fun truthy :: "jv \<Rightarrow> bool" where
  "truthy JNull = False"
| "truthy (JBool b) = b"
| "truthy (JNum n) = (n \<noteq> 0)"
| "truthy (JStr s) = (s \<noteq> [])"
| "truthy v = True"

subsection \<open>Property keys\<close>

definition is_digit :: "char \<Rightarrow> bool" where
  "is_digit c = (c \<in> set ''0123456789'')"

text \<open>The value of a decimal digit: its position among the digits.\<close>

definition digit_val :: "char \<Rightarrow> nat" where
  "digit_val c = length (takeWhile (\<lambda>d. d \<noteq> c) ''0123456789'')"

text \<open>
  An array index is the canonical decimal form of an integer below \<open>2^32 - 1\<close>. Such keys
  are the elements of an array, and they come first, in ascending order, when the
  properties of any object are enumerated.
\<close>

definition dec_val :: "string \<Rightarrow> int" where
  "dec_val s = foldl (\<lambda>a c. 10 * a + int (digit_val c)) 0 s"

definition parse_index :: "string \<Rightarrow> nat option" where
  "parse_index s =
     (if s = [] \<or> \<not> list_all is_digit s \<or> (1 < length s \<and> hd s = CHR ''0'') then None
      else (let n = dec_val s in if n < 4294967295 then Some (nat n) else None))"

fun show_nat :: "nat \<Rightarrow> string" where
  "show_nat n =
     (if n < 10 then [''0123456789'' ! n]
      else show_nat (n div 10) @ [''0123456789'' ! (n mod 10)])"

declare show_nat.simps [simp del]

subsection \<open>Own properties\<close>

fun insert_index :: "(string \<times> 'a) list \<Rightarrow> nat \<Rightarrow> string \<Rightarrow> 'a \<Rightarrow> (string \<times> 'a) list" where
  "insert_index [] i k v = [(k, v)]"
| "insert_index ((k', v') # ps) i k v =
     (case parse_index k' of
        Some j \<Rightarrow> if j < i then (k', v') # insert_index ps i k v else (k, v) # (k', v') # ps
      | None \<Rightarrow> (k, v) # (k', v') # ps)"

text \<open>
  \<open>o[k] = v\<close> on the own properties of an ordinary object: an existing property keeps its
  place; a new array-index key goes among the index keys, any other new key goes last.
\<close>

definition obj_put :: "(string \<times> 'a) list \<Rightarrow> string \<Rightarrow> 'a \<Rightarrow> (string \<times> 'a) list" where
  "obj_put ps k v =
     (if k \<in> fst ` set ps then map (\<lambda>(k', v'). if k' = k then (k', v) else (k', v')) ps
      else (case parse_index k of
              Some i \<Rightarrow> insert_index ps i k v
            | None \<Rightarrow> ps @ [(k, v)]))"

definition obj_del :: "(string \<times> 'a) list \<Rightarrow> string \<Rightarrow> (string \<times> 'a) list" where
  "obj_del ps k = filter (\<lambda>(k', v'). k' \<noteq> k) ps"

text \<open>\<open>o[k]\<close>, where \<open>None\<close> is \<open>undefined\<close>.\<close>

fun get_prop :: "jv \<Rightarrow> string \<Rightarrow> jv option" where
  "get_prop (JObj ps) k = map_of ps k"
| "get_prop (JArr es ps) k =
     (case parse_index k of
        Some i \<Rightarrow> (if i < length es then es ! i else None)
      | None \<Rightarrow> map_of ps k)"
| "get_prop v k = None"

text \<open>\<open>k in o\<close> on a container.\<close>

definition has_prop :: "jv \<Rightarrow> string \<Rightarrow> bool" where
  "has_prop obj k = (get_prop obj k \<noteq> None)"

text \<open>
  \<open>o[k] = v\<close>. Writing to an array index at or beyond the length extends the array with
  holes. In the class body (strict mode) the assignment to a property of a non-container
  raises; the root of a store is a container, and so is every value the path walk
  descends into.
\<close>

fun put_prop :: "jv \<Rightarrow> string \<Rightarrow> jv \<Rightarrow> jv" where
  "put_prop (JObj ps) k v = JObj (obj_put ps k v)"
| "put_prop (JArr es ps) k v =
     (case parse_index k of
        Some i \<Rightarrow>
          JArr (if i < length es then es[i := Some v]
                else es @ replicate (i - length es) None @ [Some v]) ps
      | None \<Rightarrow> JArr es (obj_put ps k v))"
| "put_prop x k v = x"

text \<open>\<open>delete o[k]\<close>: deleting an element of an array leaves a hole.\<close>

fun del_prop :: "jv \<Rightarrow> string \<Rightarrow> jv" where
  "del_prop (JObj ps) k = JObj (obj_del ps k)"
| "del_prop (JArr es ps) k =
     (case parse_index k of
        Some i \<Rightarrow> JArr (if i < length es then es[i := None] else es) ps
      | None \<Rightarrow> JArr es (obj_del ps k))"
| "del_prop x k = x"

fun arr_entries :: "nat \<Rightarrow> jv option list \<Rightarrow> (string \<times> jv) list" where
  "arr_entries i [] = []"
| "arr_entries i (None # es) = arr_entries (Suc i) es"
| "arr_entries i (Some v # es) = (show_nat i, v) # arr_entries (Suc i) es"

text \<open>\<open>Object.entries(o)\<close>; empty for a primitive.\<close>

fun own_entries :: "jv \<Rightarrow> (string \<times> jv) list" where
  "own_entries (JObj ps) = ps"
| "own_entries (JArr es ps) = arr_entries 0 es @ ps"
| "own_entries v = []"

subsection \<open>Equality\<close>

text \<open>
  \<open>a === b\<close> between a value read from the tree (\<open>None\<close> is \<open>undefined\<close>) and a value
  supplied by the caller: primitives are compared by type and value, and an object or
  array supplied by the caller is never the same reference as one held by the tree.
\<close>

fun strict_eq :: "jv option \<Rightarrow> jv \<Rightarrow> bool" where
  "strict_eq (Some JNull) JNull = True"
| "strict_eq (Some (JBool a)) (JBool b) = (a = b)"
| "strict_eq (Some (JNum a)) (JNum b) = (a = b)"
| "strict_eq (Some (JStr a)) (JStr b) = (a = b)"
| "strict_eq a b = False"

text \<open>
  What \<open>JSON.stringify\<close> writes of a value: a hole is written as \<open>null\<close> and the
  non-index properties of an array are left out. Two values have the same JSON text
  exactly when these normal forms are equal.
\<close>

fun json_norm :: "jv \<Rightarrow> jv"
  and json_norm_elems :: "jv option list \<Rightarrow> jv option list"
  and json_norm_props :: "(string \<times> jv) list \<Rightarrow> (string \<times> jv) list" where
  "json_norm (JArr es ps) = JArr (json_norm_elems es) []"
| "json_norm (JObj ps) = JObj (json_norm_props ps)"
| "json_norm JNull = JNull"
| "json_norm (JBool b) = JBool b"
| "json_norm (JNum n) = JNum n"
| "json_norm (JStr s) = JStr s"
| "json_norm_elems [] = []"
| "json_norm_elems (None # es) = Some JNull # json_norm_elems es"
| "json_norm_elems (Some v # es) = Some (json_norm v) # json_norm_elems es"
| "json_norm_props [] = []"
| "json_norm_props ((k, v) # ps) = (k, json_norm v) # json_norm_props ps"

text \<open>\<open>JSON.stringify(a) !== JSON.stringify(b)\<close>; \<open>JSON.stringify(undefined)\<close> is \<open>undefined\<close>.\<close>

definition stringify_differs :: "jv option \<Rightarrow> jv option \<Rightarrow> bool" where
  "stringify_differs a b = (map_option json_norm a \<noteq> map_option json_norm b)"

section \<open>Path resolver\<close>

text \<open>
  \<open>String.prototype.split\<close> with a string separator: the pieces between the
  non-overlapping occurrences of the separator, found from the left; an empty separator
  splits into single characters.
\<close>

function split_str :: "string \<Rightarrow> string \<Rightarrow> string \<Rightarrow> string list" where
  "split_str sep cur [] = [cur]"
| "split_str sep cur (c # cs) =
     (if sep \<noteq> [] \<and> take (length sep) (c # cs) = sep
      then cur # split_str sep [] (drop (length sep) (c # cs))
      else split_str sep (cur @ [c]) cs)"
  by pat_completeness auto
termination
  by (relation "measure (\<lambda>(sep, cur, s). length s)") auto

definition split :: "string \<Rightarrow> string \<Rightarrow> string list" where
  "split sep s = (if sep = [] then map (\<lambda>c. [c]) s else split_str sep [] s)"

text \<open>
  \<open>_resolvePath\<close>: an empty key raises \<open>"Key cannot be an empty string."\<close>; the
  segments are the non-empty pieces (\<open>filter(Boolean)\<close>).
\<close>

definition resolvePath :: "string \<Rightarrow> string \<Rightarrow> error + string list" where
  "resolvePath sep key =
     (if key = [] then Inl InvalidKey else Inr (filter (\<lambda>seg. seg \<noteq> []) (split sep key)))"

text \<open>
  \<open>keys[keys.length - 1]\<close>: for an empty segment list this is \<open>undefined\<close>, which as a
  property key is the string \<open>"undefined"\<close>.
\<close>

definition last_segment :: "string list \<Rightarrow> string" where
  "last_segment keys = (if keys = [] then ''undefined'' else last keys)"

text \<open>
  \<open>_getRef(keys, false)\<close> walks all segments but the last and gives the container that
  holds the last one, or \<open>None\<close> for \<open>[null, null]\<close>. The argument is \<open>butlast keys\<close>.
\<close>

fun walk_ref :: "jv \<Rightarrow> string list \<Rightarrow> jv option" where
  "walk_ref obj [] = Some obj"
| "walk_ref obj (k # ks) =
     (case get_prop obj k of
        None \<Rightarrow> None
      | Some c \<Rightarrow> if c = JNull then None
                 else if \<not> typeof_object c then None
                 else walk_ref c ks)"

text \<open>
  \<open>_getRef(keys, true)\<close> replaces every missing, \<open>null\<close> or non-object intermediate by a
  new empty object. The result is the tree after the walk; the reference the source
  returns is the container at the same path in it.
\<close>

fun create_path :: "jv \<Rightarrow> string list \<Rightarrow> jv" where
  "create_path obj [] = obj"
| "create_path obj (k # ks) =
     (let c = (case get_prop obj k of
                 None \<Rightarrow> JObj []
               | Some c \<Rightarrow> if c = JNull then JObj []
                          else if \<not> typeof_object c then JObj []
                          else c)
      in put_prop obj k (create_path c ks))"

text \<open>An in-place change of the container reached along a path.\<close>

fun modify_at :: "jv \<Rightarrow> string list \<Rightarrow> (jv \<Rightarrow> jv) \<Rightarrow> jv" where
  "modify_at obj [] f = f obj"
| "modify_at obj (k # ks) f =
     (case get_prop obj k of
        None \<Rightarrow> obj
      | Some c \<Rightarrow> put_prop obj k (modify_at c ks f))"

text \<open>The loop of \<open>_getSync\<close>.\<close>

fun getSync_walk :: "jv \<Rightarrow> string list \<Rightarrow> jv option" where
  "getSync_walk obj [] = Some obj"
| "getSync_walk obj (k # ks) =
     (if obj = JNull \<or> \<not> typeof_object obj \<or> \<not> has_prop obj k then None
      else (case get_prop obj k of
              None \<Rightarrow> None
            | Some c \<Rightarrow> getSync_walk c ks))"

section \<open>Index manager\<close>

type_synonym index = "(string \<times> string list) list"

record IndexManager =
  indexes :: index
  index_fields :: "string list"

text \<open>\<open>toLowerCase\<close> on one-byte characters: the letters A to Z.\<close>

definition lower_char :: "char \<Rightarrow> char" where
  "lower_char c =
     (case map_of (zip ''ABCDEFGHIJKLMNOPQRSTUVWXYZ'' ''abcdefghijklmnopqrstuvwxyz'') c of
        None \<Rightarrow> c
      | Some l \<Rightarrow> l)"

definition toLowerCase :: "string \<Rightarrow> string" where
  "toLowerCase s = map lower_char s"

text \<open>
  The whitespace class \<open>\s\<close> on one-byte characters: space, tab, line feed, vertical
  tab, form feed and carriage return.
\<close>

definition is_space :: "char \<Rightarrow> bool" where
  "is_space c = (c \<in> set [CHR 0x20, CHR 0x09, CHR 0x0A, CHR 0x0B, CHR 0x0C, CHR 0x0D])"

text \<open>\<open>s.split(/\s+/)\<close>: the pieces between maximal runs of whitespace.\<close>

function split_ws :: "string \<Rightarrow> string \<Rightarrow> string list" where
  "split_ws cur [] = [cur]"
| "split_ws cur (c # cs) =
     (if is_space c then cur # split_ws [] (dropWhile is_space cs)
      else split_ws (cur @ [c]) cs)"
  by pat_completeness auto
termination
  by (relation "measure (\<lambda>(cur, s). length s)")
     (auto simp: le_imp_less_Suc length_dropWhile_le)

text \<open>\<open>text.toLowerCase().split(/\s+/).filter(Boolean)\<close>.\<close>

definition tokenize :: "string \<Rightarrow> string list" where
  "tokenize text = filter (\<lambda>w. w \<noteq> []) (split_ws [] (toLowerCase text))"

definition add_posting :: "index \<Rightarrow> string \<Rightarrow> string \<Rightarrow> index" where
  "add_posting idx word key =
     (if word \<in> fst ` set idx
      then map (\<lambda>(w, ks). if w = word then (w, if key \<in> set ks then ks else ks @ [key])
                           else (w, ks)) idx
      else idx @ [(word, [key])])"

definition indexText :: "index \<Rightarrow> string \<Rightarrow> string \<Rightarrow> index" where
  "indexText idx key text = foldl (\<lambda>i w. add_posting i w key) idx (tokenize text)"

text \<open>\<open>IndexManager.delete\<close>.\<close>

fun index_delete :: "index \<Rightarrow> string \<Rightarrow> index" where
  "index_delete [] key = []"
| "index_delete ((word, ks) # rest) key =
     (if key \<in> set ks
      then (if removeAll key ks = [] then index_delete rest key
            else (word, removeAll key ks) # index_delete rest key)
      else (word, ks) # index_delete rest key)"

text \<open>\<open>IndexManager.update\<close>.\<close>

definition index_update :: "IndexManager \<Rightarrow> string \<Rightarrow> jv \<Rightarrow> IndexManager" where
  "index_update im key v =
     (let idx = index_delete (indexes im) key
      in im\<lparr>indexes :=
           (if typeof_object v \<and> v \<noteq> JNull
            then foldl (\<lambda>i field.
                          (case get_prop v field of
                             Some (JStr t) \<Rightarrow> if t \<noteq> [] then indexText i key t else i
                           | _ \<Rightarrow> i))
                       idx (index_fields im)
            else idx)\<rparr>)"

definition index_clear :: "IndexManager \<Rightarrow> IndexManager" where
  "index_clear im = im\<lparr>indexes := []\<rparr>"

text \<open>\<open>this.indexes.get(word)\<close>.\<close>

definition postings :: "index \<Rightarrow> string \<Rightarrow> string list option" where
  "postings idx word = map_of idx word"

fun search_rest :: "index \<Rightarrow> string list \<Rightarrow> string list \<Rightarrow> string list" where
  "search_rest idx results [] = results"
| "search_rest idx results (w # ws) =
     (case postings idx w of
        None \<Rightarrow> []
      | Some wordResults \<Rightarrow> search_rest idx (filter (\<lambda>x. x \<in> set wordResults) results) ws)"

text \<open>\<open>IndexManager.search\<close>.\<close>

definition search :: "IndexManager \<Rightarrow> string \<Rightarrow> string list" where
  "search im query =
     (case tokenize query of
        [] \<Rightarrow> []
      | w # ws \<Rightarrow>
          (let results = (case postings (indexes im) w of None \<Rightarrow> [] | Some ks \<Rightarrow> ks)
           in if results = [] then [] else search_rest (indexes im) results ws))"

subsection \<open>The search as the specification words it\<close>



definition posting_set :: "index \<Rightarrow> string \<Rightarrow> string set" where
  "posting_set idx w = (case map_of idx w of None \<Rightarrow> {} | Some ks \<Rightarrow> set ks)"


text \<open>
  The tokens that \<open>IndexManager.update\<close> reads off a value: those of the non-empty
  strings in its indexed fields, and none when the value is not an object.
\<close>

definition doc_tokens :: "string list \<Rightarrow> jv \<Rightarrow> string set" where
  "doc_tokens flds v =
     (if typeof_object v \<and> v \<noteq> JNull
      then (\<Union>f \<in> set flds. case get_prop v f of Some (JStr t) \<Rightarrow> set (tokenize t) | _ \<Rightarrow> {})
      else {})"

section \<open>The store\<close>

datatype schema_type = TString | TNumber | TBoolean | TOther

datatype hook_kind = Pre | Post

text \<open>
  A registered hook is a callback outside the store: it is known by a name and either
  completes or throws on the payload it is given.
\<close>

type_synonym hook = "string \<times> (jv \<Rightarrow> bool)"

text \<open>
  What an operation does besides changing the tree, in the order it does it: a hook that
  is invoked, the assignment or removal in the tree (a ghost record of the statement
  \<open>ref[last] = value\<close> or \<open>delete ref[last]\<close>), an event handed to the emitter, and a
  save that is scheduled.
\<close>

datatype effect =
    HookRun hook_kind string string
  | Wrote string
  | Removed string
  | Emitted string jv
  | SaveScheduled

record db =
  separator :: string
  autoFile :: bool
  schema :: "(string \<times> schema_type) list option"
  hooks_pre :: "(string \<times> hook list) list"
  hooks_post :: "(string \<times> hook list) list"
  data :: jv
  expires :: "(string \<times> int) list"
  indexManager :: IndexManager
  trace :: "effect list"

text \<open>\<open>_validateSchema\<close>; reading a field of \<open>null\<close> raises a \<open>TypeError\<close>.\<close>

fun validateSchema :: "(string \<times> schema_type) list \<Rightarrow> jv \<Rightarrow> error option" where
  "validateSchema [] v = None"
| "validateSchema ((field, ty) # rest) v =
     (if v = JNull then Some TypeError
      else (case get_prop v field of
              None \<Rightarrow> validateSchema rest v
            | Some x \<Rightarrow>
                if ty = TString \<and> (case x of JStr t \<Rightarrow> False | _ \<Rightarrow> True)
                  then Some (SchemaViolation field)
                else if ty = TNumber \<and> (case x of JNum n \<Rightarrow> False | _ \<Rightarrow> True)
                  then Some (SchemaViolation field)
                else if ty = TBoolean \<and> (case x of JBool b \<Rightarrow> False | _ \<Rightarrow> True)
                  then Some (SchemaViolation field)
                else validateSchema rest v))"

fun run_hook_list ::
  "hook_kind \<Rightarrow> string \<Rightarrow> jv \<Rightarrow> hook list \<Rightarrow> effect list \<Rightarrow> error option \<times> effect list" where
  "run_hook_list kind action payload [] tr = (None, tr)"
| "run_hook_list kind action payload ((name, fails) # hs) tr =
     (if fails payload then (Some (HookFailed name), tr @ [HookRun kind action name])
      else run_hook_list kind action payload hs (tr @ [HookRun kind action name]))"

definition hooks_for :: "db \<Rightarrow> hook_kind \<Rightarrow> string \<Rightarrow> hook list" where
  "hooks_for s kind action =
     (case map_of (case kind of Pre \<Rightarrow> hooks_pre s | Post \<Rightarrow> hooks_post s) action of
        None \<Rightarrow> []
      | Some hs \<Rightarrow> hs)"

text \<open>
  \<open>_runHooks\<close>: the hooks of the action run in registration order; the first that
  throws ends the run.
\<close>

definition runHooks :: "db \<Rightarrow> hook_kind \<Rightarrow> string \<Rightarrow> jv \<Rightarrow> error option \<times> db" where
  "runHooks s kind action payload =
     (case run_hook_list kind action payload (hooks_for s kind action) (trace s) of
        (r, tr) \<Rightarrow> (r, s\<lparr>trace := tr\<rparr>))"

text \<open>\<open>_emit\<close>: the event itself, then the catch-all \<open>change\<close> event.\<close>

definition emit :: "db \<Rightarrow> string \<Rightarrow> (string \<times> jv) list \<Rightarrow> db" where
  "emit s ty payload =
     s\<lparr>trace := trace s @ [Emitted ty (JObj payload),
                            Emitted ''change'' (JObj ((''type'', JStr ty) # payload))]\<rparr>"

definition scheduleSave :: "db \<Rightarrow> db" where
  "scheduleSave s = (if autoFile s then s\<lparr>trace := trace s @ [SaveScheduled]\<rparr> else s)"

definition getSync :: "db \<Rightarrow> string \<Rightarrow> error + jv option" where
  "getSync s key =
     (case resolvePath (separator s) key of
        Inl e \<Rightarrow> Inl e
      | Inr keys \<Rightarrow> Inr (getSync_walk (data s) keys))"

definition setSync :: "db \<Rightarrow> string \<Rightarrow> jv \<Rightarrow> (error + jv) \<times> db" where
  "setSync s key v =
     (case resolvePath (separator s) key of
        Inl e \<Rightarrow> (Inl e, s)
      | Inr keys \<Rightarrow>
          (let path = butlast keys;
               l = last_segment keys;
               d1 = create_path (data s) path;
               oldValue = (case walk_ref d1 path of None \<Rightarrow> None | Some r \<Rightarrow> get_prop r l);
               d2 = modify_at d1 path (\<lambda>r. put_prop r l v);
               im = (if stringify_differs oldValue (Some v)
                     then index_update (indexManager s) key v
                     else indexManager s);
               s1 = s\<lparr>data := d2, indexManager := im, trace := trace s @ [Wrote key]\<rparr>
           in (Inr v, scheduleSave (emit s1 ''set'' [(''key'', JStr key), (''value'', v)]))))"

definition deleteSync :: "db \<Rightarrow> string \<Rightarrow> (error + bool) \<times> db" where
  "deleteSync s key =
     (case resolvePath (separator s) key of
        Inl e \<Rightarrow> (Inl e, s)
      | Inr keys \<Rightarrow>
          (case walk_ref (data s) (butlast keys) of
             None \<Rightarrow> (Inr False, s)
           | Some r \<Rightarrow>
               if \<not> has_prop r (last_segment keys) then (Inr False, s)
               else (let d = modify_at (data s) (butlast keys) (\<lambda>r. del_prop r (last_segment keys));
                         im = (indexManager s)\<lparr>indexes := index_delete (indexes (indexManager s)) key\<rparr>;
                         s1 = s\<lparr>data := d, indexManager := im, trace := trace s @ [Removed key]\<rparr>
                     in (Inr True, scheduleSave (emit s1 ''delete'' [(''key'', JStr key)])))))"

text \<open>
  \<open>set(key, value, opts)\<close> at the time \<open>now\<close>; \<open>ttl\<close> is \<open>opts.ttlMs\<close> when that is a
  number. The pair is what the caller gets (a raised error or the value) and the store
  afterwards.
\<close>

definition set_db :: "db \<Rightarrow> int \<Rightarrow> string \<Rightarrow> jv \<Rightarrow> int option \<Rightarrow> (error + jv) \<times> db" where
  "set_db s now key v ttl =
     (case (case schema s of None \<Rightarrow> None | Some sch \<Rightarrow> validateSchema sch v) of
        Some e \<Rightarrow> (Inl e, s)
      | None \<Rightarrow>
          (case runHooks s Pre ''set'' (JObj [(''key'', JStr key), (''value'', v)]) of
             (Some e, s1) \<Rightarrow> (Inl e, s1)
           | (None, s1) \<Rightarrow>
               (case setSync s1 key v of
                  (Inl e, s2) \<Rightarrow> (Inl e, s2)
                | (Inr r, s2) \<Rightarrow>
                    (let s3 = s2\<lparr>expires :=
                                 (case ttl of
                                    Some t \<Rightarrow> if 0 < t then obj_put (expires s2) key (now + t)
                                              else obj_del (expires s2) key
                                  | None \<Rightarrow> obj_del (expires s2) key)\<rparr>
                     in (case runHooks s3 Post ''set'' (JObj [(''key'', JStr key), (''value'', v)]) of
                           (Some e, s4) \<Rightarrow> (Inl e, s4)
                         | (None, s4) \<Rightarrow> (Inr r, s4))))))"

definition isExpired :: "db \<Rightarrow> int \<Rightarrow> string \<Rightarrow> bool" where
  "isExpired s now keyPath =
     (case map_of (expires s) keyPath of None \<Rightarrow> False | Some exp \<Rightarrow> exp \<le> now)"

fun cleanup_loop :: "int \<Rightarrow> (string \<times> int) list \<Rightarrow> db \<Rightarrow> bool \<Rightarrow> error option \<times> db \<times> bool" where
  "cleanup_loop now [] s changed = (None, s, changed)"
| "cleanup_loop now ((k, exp) # rest) s changed =
     (if exp \<le> now
      then (case deleteSync s k of
              (Inl e, s1) \<Rightarrow> (Some e, s1, changed)
            | (Inr ok, s1) \<Rightarrow> cleanup_loop now rest (s1\<lparr>expires := obj_del (expires s1) k\<rparr>) True)
      else cleanup_loop now rest s changed)"

text \<open>\<open>_cleanupExpiredSync\<close>, over the entries the table has when the sweep starts.\<close>

definition cleanupExpiredSync :: "db \<Rightarrow> int \<Rightarrow> error option \<times> db" where
  "cleanupExpiredSync s now =
     (case cleanup_loop now (expires s) s False of
        (Some e, s1, changed) \<Rightarrow> (Some e, s1)
      | (None, s1, changed) \<Rightarrow> (None, if changed then scheduleSave s1 else s1))"

definition get :: "db \<Rightarrow> int \<Rightarrow> string \<Rightarrow> (error + jv option) \<times> db" where
  "get s now key =
     (case cleanupExpiredSync s now of
        (Some e, s1) \<Rightarrow> (Inl e, s1)
      | (None, s1) \<Rightarrow>
          if isExpired s1 now key
          then (case deleteSync s1 key of
                  (Inl e, s2) \<Rightarrow> (Inl e, s2)
                | (Inr ok, s2) \<Rightarrow> (Inr None, s2\<lparr>expires := obj_del (expires s2) key\<rparr>))
          else (case getSync s1 key of Inl e \<Rightarrow> (Inl e, s1) | Inr r \<Rightarrow> (Inr r, s1)))"

definition has :: "db \<Rightarrow> int \<Rightarrow> string \<Rightarrow> (error + bool) \<times> db" where
  "has s now key =
     (case get s now key of
        (Inl e, s1) \<Rightarrow> (Inl e, s1)
      | (Inr r, s1) \<Rightarrow> (Inr (r \<noteq> None), s1))"

definition delete :: "db \<Rightarrow> string \<Rightarrow> (error + bool) \<times> db" where
  "delete s key =
     (case runHooks s Pre ''delete'' (JObj [(''key'', JStr key)]) of
        (Some e, s1) \<Rightarrow> (Inl e, s1)
      | (None, s1) \<Rightarrow>
          (case deleteSync s1 key of
             (Inl e, s2) \<Rightarrow> (Inl e, s2)
           | (Inr ok, s2) \<Rightarrow>
               (case runHooks (s2\<lparr>expires := obj_del (expires s2) key\<rparr>) Post ''delete''
                       (JObj [(''key'', JStr key)]) of
                  (Some e, s3) \<Rightarrow> (Inl e, s3)
                | (None, s3) \<Rightarrow> (Inr ok, s3))))"

definition all :: "db \<Rightarrow> int \<Rightarrow> (error + jv) \<times> db" where
  "all s now =
     (case cleanupExpiredSync s now of
        (Some e, s1) \<Rightarrow> (Inl e, s1)
      | (None, s1) \<Rightarrow> (Inr (json_norm (data s1)), s1))"

text \<open>
  The container a bulk read works on:
  \<open>keyPrefix ? this._getSync(keyPrefix) : this._data\<close>, kept when it is truthy and an
  object.
\<close>

definition read_root :: "db \<Rightarrow> string \<Rightarrow> error + jv option" where
  "read_root s keyPrefix =
     (case (if keyPrefix \<noteq> [] then getSync s keyPrefix else Inr (Some (data s))) of
        Inl e \<Rightarrow> Inl e
      | Inr None \<Rightarrow> Inr None
      | Inr (Some root) \<Rightarrow> if truthy root \<and> typeof_object root then Inr (Some root) else Inr None)"

definition keys :: "db \<Rightarrow> string \<Rightarrow> error + string list" where
  "keys s keyPrefix =
     (case read_root s keyPrefix of
        Inl e \<Rightarrow> Inl e
      | Inr None \<Rightarrow> Inr []
      | Inr (Some root) \<Rightarrow> Inr (map fst (own_entries root)))"

definition values_db :: "db \<Rightarrow> string \<Rightarrow> error + jv list" where
  "values_db s keyPrefix =
     (case read_root s keyPrefix of
        Inl e \<Rightarrow> Inl e
      | Inr None \<Rightarrow> Inr []
      | Inr (Some root) \<Rightarrow> Inr (map snd (own_entries root)))"

definition entries :: "db \<Rightarrow> string \<Rightarrow> error + (string \<times> jv) list" where
  "entries s keyPrefix =
     (case read_root s keyPrefix of
        Inl e \<Rightarrow> Inl e
      | Inr None \<Rightarrow> Inr []
      | Inr (Some root) \<Rightarrow> Inr (own_entries root))"

definition find :: "db \<Rightarrow> string \<Rightarrow> (jv \<Rightarrow> string \<Rightarrow> bool) \<Rightarrow> error + (string \<times> jv) list" where
  "find s keyPrefix predicate =
     (case read_root s keyPrefix of
        Inl e \<Rightarrow> Inl e
      | Inr None \<Rightarrow> Inr []
      | Inr (Some root) \<Rightarrow> Inr (filter (\<lambda>(k, v). predicate v k) (own_entries root)))"


fun elements :: "jv option list \<Rightarrow> jv list" where
  "elements [] = []"
| "elements (None # es) = elements es"
| "elements (Some x # es) = x # elements es"



subsection \<open>The array helpers as the specification words them\<close>




section \<open>Rebuilding the index\<close>

text \<open>\<open>currentKey ? `${currentKey}${this.separator}${key}` : key\<close>.\<close>

definition child_key :: "string \<Rightarrow> string \<Rightarrow> string \<Rightarrow> string" where
  "child_key sep currentKey key = (if currentKey \<noteq> [] then currentKey @ sep @ key else key)"

text \<open>
  \<open>indexRecursive\<close> of \<open>_rebuildIndex\<close>: every object or array of the tree, the root
  included, is indexed under its accumulated path, and then its own properties are
  visited in enumeration order.
\<close>

fun indexRecursive :: "string \<Rightarrow> jv \<Rightarrow> string \<Rightarrow> IndexManager \<Rightarrow> IndexManager"
  and indexProps :: "string \<Rightarrow> (string \<times> jv) list \<Rightarrow> string \<Rightarrow> IndexManager \<Rightarrow> IndexManager"
  and indexElems :: "string \<Rightarrow> nat \<Rightarrow> jv option list \<Rightarrow> string \<Rightarrow> IndexManager \<Rightarrow> IndexManager" where
  "indexRecursive sep (JObj ps) cur im = indexProps sep ps cur (index_update im cur (JObj ps))"
| "indexRecursive sep (JArr es ps) cur im =
     indexProps sep ps cur (indexElems sep 0 es cur (index_update im cur (JArr es ps)))"
| "indexRecursive sep JNull cur im = im"
| "indexRecursive sep (JBool b) cur im = im"
| "indexRecursive sep (JNum n) cur im = im"
| "indexRecursive sep (JStr t) cur im = im"
| "indexProps sep [] cur im = im"
| "indexProps sep ((k, v) # ps) cur im =
     indexProps sep ps cur (indexRecursive sep v (child_key sep cur k) im)"
| "indexElems sep i [] cur im = im"
| "indexElems sep i (None # es) cur im = indexElems sep (Suc i) es cur im"
| "indexElems sep i (Some v # es) cur im =
     indexElems sep (Suc i) es cur (indexRecursive sep v (child_key sep cur (show_nat i)) im)"

definition rebuildIndex :: "db \<Rightarrow> db" where
  "rebuildIndex s =
     s\<lparr>indexManager := indexRecursive (separator s) (data s) [] (index_clear (indexManager s))\<rparr>"

text \<open>\<open>import(obj)\<close>: the tree becomes a JSON copy of the object.\<close>

definition import_db :: "db \<Rightarrow> jv \<Rightarrow> (error + bool) \<times> db" where
  "import_db s obj =
     (if \<not> truthy obj \<or> \<not> typeof_object obj then (Inl InvalidImport, s)
      else (Inr True,
            scheduleSave (emit (rebuildIndex (s\<lparr>data := json_norm obj, expires := []\<rparr>))
                            ''reset'' [(''reason'', JStr ''import'')])))"

definition deleteAll :: "db \<Rightarrow> (error + bool) \<times> db" where
  "deleteAll s =
     (Inr True,
      scheduleSave (emit (s\<lparr>data := JObj [], expires := [],
                            indexManager := index_clear (indexManager s)\<rparr>) ''reset'' []))"

section \<open>Transactions\<close>

text \<open>
  \<open>transaction(fn)\<close>. The body works on a second store \<open>temp\<close>, the workspace, that
  has no hooks, no schema and no file, and holds JSON copies of
  the tree and of the expiry table, and the very index manager of the live store
  (\<open>temp._indexManager = this._indexManager\<close>): what the body does to the index of
  \<open>temp\<close> is done to the index of the live store. The body is a function from the store it
  is given to the error it raises, if any, and the store it leaves.
\<close>

definition workspace :: "db \<Rightarrow> db" where
  "workspace s =
     \<lparr>separator = separator s, autoFile = False, schema = None,
      hooks_pre = [], hooks_post = [],
      data = json_norm (data s), expires = expires s,
      indexManager = indexManager s, trace = []\<rparr>"

definition transaction :: "db \<Rightarrow> (db \<Rightarrow> error option \<times> db) \<Rightarrow> (error + bool) \<times> db" where
  "transaction s fn =
     (let snapshot = json_norm (data s);
          temp = workspace s
      in (case fn temp of
            (None, temp') \<Rightarrow>
              (Inr True,
               emit (scheduleSave (rebuildIndex
                      (s\<lparr>data := data temp', expires := expires temp',
                         indexManager := indexManager temp'\<rparr>)))
                    ''reset'' [(''reason'', JStr ''transaction'')])
          | (Some e, temp') \<Rightarrow>
              (Inl e, s\<lparr>data := snapshot, indexManager := indexManager temp'\<rparr>)))"

section \<open>Query matcher\<close>

text \<open>
  The operations of the language that the matcher leaves to JavaScript: the relational
  operators with their coercions, \<open>String.prototype.includes\<close> and the regular
  expression engine (which raises on a malformed pattern).
\<close>

record js_builtins =
  js_lt :: "jv option \<Rightarrow> jv option \<Rightarrow> bool"
  js_lte :: "jv option \<Rightarrow> jv option \<Rightarrow> bool"
  js_gt :: "jv option \<Rightarrow> jv option \<Rightarrow> bool"
  js_gte :: "jv option \<Rightarrow> jv option \<Rightarrow> bool"
  js_string_includes :: "string \<Rightarrow> jv option \<Rightarrow> bool"
  js_regex_test :: "jv \<Rightarrow> jv option \<Rightarrow> error + bool"

text \<open>
  \<open>cmp.includes(val)\<close>: membership in an array (a hole reads as \<open>undefined\<close>), a
  substring test on a string, and a \<open>TypeError\<close> on anything else, which has no such
  method.
\<close>

fun includes_js :: "js_builtins \<Rightarrow> jv \<Rightarrow> jv option \<Rightarrow> error + bool" where
  "includes_js B (JArr es ps) val =
     Inr (case val of
            None \<Rightarrow> None \<in> set es
          | Some x \<Rightarrow> (\<exists>y \<in> set (elements es). strict_eq (Some y) x))"
| "includes_js B (JStr t) val = Inr (js_string_includes B t val)"
| "includes_js B cmp val = Inl TypeError"

text \<open>
  The inner loop of \<open>match\<close> over the operators of one rule: \<open>Inr False\<close> is the
  \<open>return false\<close> of an operator that does not hold, \<open>Inr True\<close> is the end of the loop.
\<close>

fun match_ops :: "js_builtins \<Rightarrow> jv option \<Rightarrow> (string \<times> jv) list \<Rightarrow> error + bool" where
  "match_ops B val [] = Inr True"
| "match_ops B val ((op, cmp) # rest) =
     (if op = ''$eq'' then (if \<not> strict_eq val cmp then Inr False else match_ops B val rest)
      else if op = ''$ne'' then (if strict_eq val cmp then Inr False else match_ops B val rest)
      else if op = ''$gt'' then (if \<not> js_gt B val (Some cmp) then Inr False else match_ops B val rest)
      else if op = ''$gte'' then (if \<not> js_gte B val (Some cmp) then Inr False else match_ops B val rest)
      else if op = ''$lt'' then (if \<not> js_lt B val (Some cmp) then Inr False else match_ops B val rest)
      else if op = ''$lte'' then (if \<not> js_lte B val (Some cmp) then Inr False else match_ops B val rest)
      else if op = ''$in'' then
        (case includes_js B cmp val of
           Inl e \<Rightarrow> Inl e
         | Inr b \<Rightarrow> if \<not> b then Inr False else match_ops B val rest)
      else if op = ''$nin'' then
        (case includes_js B cmp val of
           Inl e \<Rightarrow> Inl e
         | Inr b \<Rightarrow> if b then Inr False else match_ops B val rest)
      else if op = ''$regex'' then
        (case js_regex_test B cmp val of
           Inl e \<Rightarrow> Inl e
         | Inr b \<Rightarrow> if \<not> b then Inr False else match_ops B val rest)
      else Inl (UnknownOperator op))"

text \<open>
  The outer loop of \<open>match\<close> over the fields of the filter. Reading a field of \<open>null\<close>
  and taking the entries of a \<open>null\<close> rule raise a \<open>TypeError\<close>.
\<close>

fun match_fields :: "js_builtins \<Rightarrow> jv \<Rightarrow> (string \<times> jv) list \<Rightarrow> error + bool" where
  "match_fields B obj [] = Inr True"
| "match_fields B obj ((field, rule) # rest) =
     (if obj = JNull then Inl TypeError
      else (case rule of
              JNull \<Rightarrow> Inl TypeError
            | JObj ops \<Rightarrow>
                (case match_ops B (get_prop obj field) ops of
                   Inl e \<Rightarrow> Inl e
                 | Inr b \<Rightarrow> if \<not> b then Inr False else match_fields B obj rest)
            | _ \<Rightarrow> if \<not> strict_eq (get_prop obj field) rule then Inr False
                   else match_fields B obj rest))"

text \<open>\<open>cond.$and\<close> and its like, when the property is there and truthy.\<close>

definition truthy_prop :: "jv \<Rightarrow> string \<Rightarrow> jv option" where
  "truthy_prop cond k =
     (case get_prop cond k of None \<Rightarrow> None | Some a \<Rightarrow> if truthy a then Some a else None)"

text \<open>
  \<open>match(obj, cond)\<close>. \<open>every\<close> and \<open>some\<close> stop at the first sub-filter that decides
  them and pass over the holes of the array.
\<close>

function match :: "js_builtins \<Rightarrow> jv \<Rightarrow> jv \<Rightarrow> error + bool"
  and match_every :: "js_builtins \<Rightarrow> jv \<Rightarrow> jv list \<Rightarrow> error + bool"
  and match_some :: "js_builtins \<Rightarrow> jv \<Rightarrow> jv list \<Rightarrow> error + bool" where
  "match B obj cond =
     (if \<not> truthy cond \<or> \<not> typeof_object cond then Inr False
      else (case truthy_prop cond ''$and'' of
              Some a \<Rightarrow>
                (case a of
                   JArr es ps \<Rightarrow> match_every B obj (elements es)
                 | _ \<Rightarrow> Inl (InvalidFilter ''$and must be array''))
            | None \<Rightarrow>
                (case truthy_prop cond ''$or'' of
                   Some a \<Rightarrow>
                     (case a of
                        JArr es ps \<Rightarrow> match_some B obj (elements es)
                      | _ \<Rightarrow> Inl (InvalidFilter ''$or must be array''))
                 | None \<Rightarrow>
                     (case truthy_prop cond ''$not'' of
                        Some n \<Rightarrow> (case match B obj n of Inl e \<Rightarrow> Inl e | Inr b \<Rightarrow> Inr (\<not> b))
                      | None \<Rightarrow> match_fields B obj (own_entries cond)))))"
| "match_every B obj [] = Inr True"
| "match_every B obj (sub # subs) =
     (case match B obj sub of
        Inl e \<Rightarrow> Inl e
      | Inr b \<Rightarrow> if \<not> b then Inr False else match_every B obj subs)"
| "match_some B obj [] = Inr False"
| "match_some B obj (sub # subs) =
     (case match B obj sub of
        Inl e \<Rightarrow> Inl e
      | Inr b \<Rightarrow> if b then Inr True else match_some B obj subs)"
  by pat_completeness auto
termination
proof (relation "measure (\<lambda>x. case x of
                  Inl (B, obj, cond) \<Rightarrow> size cond
                | Inr (Inl (B, obj, subs)) \<Rightarrow> size_list size subs
                | Inr (Inr (B, obj, subs)) \<Rightarrow> size_list size subs)", goal_cases)
  case 1
  show ?case by simp
next
  have mem: "\<And>(ps :: (string \<times> jv) list) k a. map_of ps k = Some a \<Longrightarrow> size a < Suc (size_list (size_prod (\<lambda>x. 0) size) ps)"
  proof -
    fix ps :: "(string \<times> jv) list" and k a
    assume "map_of ps k = Some a"
    then show "size a < Suc (size_list (size_prod (\<lambda>x. 0) size) ps)"
      by (induction ps) (auto split: if_splits)
  qed
  have nth: "\<And>(es :: jv option list) i a. i < length es \<Longrightarrow> es ! i = Some a \<Longrightarrow> size a < Suc (size_list (size_option size) es)"
  proof -
    fix es :: "jv option list" and i a
    assume "i < length es" "es ! i = Some a"
    then have "Some a \<in> set es" by (metis nth_mem)
    then show "size a < Suc (size_list (size_option size) es)"
      by (induction es) auto
  qed
  have L1: "\<And>cond k a. get_prop cond k = Some a \<Longrightarrow> size a < size cond"
  proof -
    fix cond k a assume g: "get_prop cond k = Some a"
    show "size a < size cond"
    proof (cases cond)
      case (JObj ps)
      with g mem[of ps k a] show ?thesis by simp
    next
      case (JArr es ps)
      show ?thesis
      proof (cases "parse_index k")
        case None
        with g JArr mem[of ps k a] show ?thesis by simp
      next
        case (Some i)
        with g JArr have "i < length es" "es ! i = Some a" by (auto split: if_splits)
        with nth[of i es a] JArr show ?thesis by simp
      qed
    qed (use g in auto)
  qed
  have L2: "\<And>es :: jv option list. size_list size (elements es) \<le> size_list (size_option size) es"
  proof -
    fix es :: "jv option list"
    show "size_list size (elements es) \<le> size_list (size_option size) es"
      by (induction es rule: elements.induct) auto
  qed
  have L3: "\<And>cond k a. truthy_prop cond k = Some a \<Longrightarrow> size a < size cond"
    using L1 by (auto simp: truthy_prop_def split: option.splits if_splits)
  have L4: "\<And>cond k es ps. truthy_prop cond k = Some (JArr es ps) \<Longrightarrow>
               size_list size (elements es) < size cond"
  proof -
    fix cond k es ps assume "truthy_prop cond k = Some (JArr es ps)"
    from L3[OF this] L2[of es] show "size_list size (elements es) < size cond" by simp
  qed
  fix B :: js_builtins and obj cond :: jv
  show "\<And>x2 x51 x52. \<not> (\<not> truthy cond \<or> \<not> typeof_object cond) \<Longrightarrow>
       truthy_prop cond ''$and'' = Some x2 \<Longrightarrow> x2 = JArr x51 x52 \<Longrightarrow>
       (Inr (Inl (B, obj, elements x51)), Inl (B, obj, cond)) \<in> measure (\<lambda>x. case x of
                  Inl (B, obj, cond) \<Rightarrow> size cond
                | Inr (Inl (B, obj, subs)) \<Rightarrow> size_list size subs
                | Inr (Inr (B, obj, subs)) \<Rightarrow> size_list size subs)"
    using L4 by auto
  show "\<And>x2 x51 x52. \<not> (\<not> truthy cond \<or> \<not> typeof_object cond) \<Longrightarrow>
       truthy_prop cond ''$and'' = None \<Longrightarrow>
       truthy_prop cond ''$or'' = Some x2 \<Longrightarrow> x2 = JArr x51 x52 \<Longrightarrow>
       (Inr (Inr (B, obj, elements x51)), Inl (B, obj, cond)) \<in> measure (\<lambda>x. case x of
                  Inl (B, obj, cond) \<Rightarrow> size cond
                | Inr (Inl (B, obj, subs)) \<Rightarrow> size_list size subs
                | Inr (Inr (B, obj, subs)) \<Rightarrow> size_list size subs)"
    using L4 by auto
  show "\<And>x2. \<not> (\<not> truthy cond \<or> \<not> typeof_object cond) \<Longrightarrow>
       truthy_prop cond ''$and'' = None \<Longrightarrow>
       truthy_prop cond ''$or'' = None \<Longrightarrow>
       truthy_prop cond ''$not'' = Some x2 \<Longrightarrow>
       (Inl (B, obj, x2), Inl (B, obj, cond)) \<in> measure (\<lambda>x. case x of
                  Inl (B, obj, cond) \<Rightarrow> size cond
                | Inr (Inl (B, obj, subs)) \<Rightarrow> size_list size subs
                | Inr (Inr (B, obj, subs)) \<Rightarrow> size_list size subs)"
    using L3 by auto
qed simp_all

declare match.simps(1) [simp del]


text \<open>The loop of \<open>query\<close> over the children of the container.\<close>

fun query_collect :: "js_builtins \<Rightarrow> jv \<Rightarrow> (string \<times> jv) list \<Rightarrow> error + (string \<times> jv) list" where
  "query_collect B flt [] = Inr []"
| "query_collect B flt ((k, v) # rest) =
     (if typeof_object v
      then (case match B v flt of
              Inl e \<Rightarrow> Inl e
            | Inr b \<Rightarrow>
                (case query_collect B flt rest of
                   Inl e \<Rightarrow> Inl e
                 | Inr out \<Rightarrow> Inr (if b then (k, v) # out else out)))
      else query_collect B flt rest)"

record query_options =
  opt_sort :: "(string \<times> int) option"
  opt_skip :: "nat option"
  opt_limit :: "nat option"

text \<open>The comparison function handed to \<open>sort\<close>.\<close>

definition compare_entries ::
  "js_builtins \<Rightarrow> string \<Rightarrow> int \<Rightarrow> string \<times> jv \<Rightarrow> string \<times> jv \<Rightarrow> int" where
  "compare_entries B field order a b =
     (let valA = get_prop (snd a) field; valB = get_prop (snd b) field
      in if js_lt B valA valB then (if order = 1 then - 1 else 1)
         else if js_gt B valA valB then (if order = 1 then 1 else - 1)
         else 0)"

fun insert_sorted :: "('a \<Rightarrow> 'a \<Rightarrow> int) \<Rightarrow> 'a \<Rightarrow> 'a list \<Rightarrow> 'a list" where
  "insert_sorted cmp x [] = [x]"
| "insert_sorted cmp x (y # ys) =
     (if cmp x y \<le> 0 then x # y # ys else y # insert_sorted cmp x ys)"

text \<open>
  \<open>Array.prototype.sort\<close> is stable; this is its result for a comparison function that
  orders the elements consistently.
\<close>

definition sort_by :: "('a \<Rightarrow> 'a \<Rightarrow> int) \<Rightarrow> 'a list \<Rightarrow> 'a list" where
  "sort_by cmp xs = foldr (insert_sorted cmp) xs []"

text \<open>
  \<open>query(keyPrefix, filter, options)\<close>. A sort of two or more results reads the sort
  field of each value, which raises for a \<open>null\<close> child; \<open>skip\<close> and \<open>limit\<close> apply
  when they are not zero.
\<close>

definition query ::
  "db \<Rightarrow> js_builtins \<Rightarrow> string \<Rightarrow> jv \<Rightarrow> query_options \<Rightarrow> error + (string \<times> jv) list" where
  "query s B keyPrefix flt options =
     (case read_root s keyPrefix of
        Inl e \<Rightarrow> Inl e
      | Inr None \<Rightarrow> Inr []
      | Inr (Some root) \<Rightarrow>
          (case query_collect B flt (own_entries root) of
             Inl e \<Rightarrow> Inl e
           | Inr out \<Rightarrow>
               (case (case opt_sort options of
                        None \<Rightarrow> Inr out
                      | Some (field, order) \<Rightarrow>
                          if 2 \<le> length out \<and> JNull \<in> snd ` set out then Inl TypeError
                          else Inr (sort_by (compare_entries B field order) out)) of
                  Inl e \<Rightarrow> Inl e
                | Inr ordered \<Rightarrow>
                    (let skipped = (case opt_skip options of
                                      None \<Rightarrow> ordered
                                    | Some n \<Rightarrow> if n \<noteq> 0 then drop n ordered else ordered)
                     in Inr (case opt_limit options of
                               None \<Rightarrow> skipped
                             | Some n \<Rightarrow> if n \<noteq> 0 then take n skipped else skipped)))))"

section \<open>Stores of the examples\<close>

text \<open>
  The constructor with no data file to load: an empty tree, an empty expiry table and an
  empty index.
\<close>

definition new_db :: "string \<Rightarrow> bool \<Rightarrow> string list \<Rightarrow> db" where
  "new_db sep auto flds =
     \<lparr>separator = sep, autoFile = auto, schema = None, hooks_pre = [], hooks_post = [],
      data = JObj [], expires = [],
      indexManager = \<lparr>indexes = [], index_fields = flds\<rparr>, trace = []\<rparr>"

definition default_db :: db where
  "default_db = new_db ''.'' True [''title'', ''description'']"



text \<open>
  The stores of the specification's index example: the tree and the index after
  \<open>set("docs.1", {title: "Node Guide"})\<close>, and after \<open>set("docs.2", {title: "JS Intro"})\<close>
  on top of it.
\<close>

definition docs1_db :: db where
  "docs1_db = default_db
     \<lparr>data := JObj [(''docs'', JObj [(''1'', JObj [(''title'', JStr ''Node Guide'')])])],
      indexManager := \<lparr>indexes = [(''node'', [''docs.1'']), (''guide'', [''docs.1''])],
                        index_fields = [''title'', ''description'']\<rparr>\<rparr>"

definition docs_db :: db where
  "docs_db = default_db
     \<lparr>data := JObj [(''docs'', JObj [(''1'', JObj [(''title'', JStr ''Node Guide'')]),
                                     (''2'', JObj [(''title'', JStr ''JS Intro'')])])],
      indexManager := \<lparr>indexes = [(''node'', [''docs.1'']), (''guide'', [''docs.1'']),
                                    (''js'', [''docs.2'']), (''intro'', [''docs.2''])],
                        index_fields = [''title'', ''description'']\<rparr>\<rparr>"

text \<open>
  The README's session example at time 0, after
  \<open>set("session.token", "abc123", {ttlMs: 5000})\<close>.
\<close>

definition session_db :: db where
  "session_db = default_db
     \<lparr>data := JObj [(''session'', JObj [(''token'', JStr ''abc123'')])],
      expires := [(''session.token'', 5000)]\<rparr>"

text \<open>A store with one hook before and one hook after \<open>set\<close> and \<open>delete\<close>; neither throws.\<close>

definition hooked_db :: db where
  "hooked_db = default_db
     \<lparr>hooks_pre := [(''set'', [(''check'', \<lambda>p. False)]), (''delete'', [(''check'', \<lambda>p. False)])],
      hooks_post := [(''set'', [(''audit'', \<lambda>p. False)]), (''delete'', [(''audit'', \<lambda>p. False)])],
      data := JObj [(''a'', JNum 1)]\<rparr>"


text \<open>
  An instance of the language operations for the examples, which compare numbers only:
  the relational operators on two numbers. On other operands it answers false, it finds
  no substring and it rejects every pattern.
\<close>

definition number_builtins :: js_builtins where
  "number_builtins =
     \<lparr>js_lt = (\<lambda>a b. case (a, b) of (Some (JNum x), Some (JNum y)) \<Rightarrow> x < y | _ \<Rightarrow> False),
      js_lte = (\<lambda>a b. case (a, b) of (Some (JNum x), Some (JNum y)) \<Rightarrow> x \<le> y | _ \<Rightarrow> False),
      js_gt = (\<lambda>a b. case (a, b) of (Some (JNum x), Some (JNum y)) \<Rightarrow> y < x | _ \<Rightarrow> False),
      js_gte = (\<lambda>a b. case (a, b) of (Some (JNum x), Some (JNum y)) \<Rightarrow> y \<le> x | _ \<Rightarrow> False),
      js_string_includes = (\<lambda>t v. False),
      js_regex_test = (\<lambda>p v. Inl (Raised ''SyntaxError''))\<rparr>"

definition no_options :: query_options where
  "no_options = \<lparr>opt_sort = None, opt_skip = None, opt_limit = None\<rparr>"

text \<open>The store of the specification's query example.\<close>

definition users_db :: db where
  "users_db = default_db
     \<lparr>data := JObj [(''users'',
                JObj [(''1'', JObj [(''name'', JStr ''Alice''), (''age'', JNum 25)]),
                      (''2'', JObj [(''name'', JStr ''Bob''), (''age'', JNum 30)])])]\<rparr>"

text \<open>
  A transaction body that stores an account with a title and then raises:
  \<open>await tx.set("account", {title: "savings", balance: 100}); throw new Error("insufficient funds")\<close>.
\<close>

definition tx_set_then_raise :: "db \<Rightarrow> error option \<times> db" where
  "tx_set_then_raise t =
     (Some (Raised ''insufficient funds''),
      snd (set_db t 0 ''account'' (JObj [(''title'', JStr ''savings''), (''balance'', JNum 100)]) None))"

text \<open>A store whose only document, \<open>users.1\<close>, expired at time 100.\<close>

definition expired_db :: db where
  "expired_db = default_db
     \<lparr>data := JObj [(''users'', JObj [(''1'', JObj [(''name'', JStr ''Alice'')])])],
      expires := [(''users.1'', 100)]\<rparr>"

text \<open>The empty store after \<open>set("a", {b: {title: "x"}})\<close>.\<close>

definition nested_db :: db where
  "nested_db = snd (setSync default_db ''a'' (JObj [(''b'', JObj [(''title'', JStr ''x'')])]))"

text \<open>The empty store after \<open>set("doc", {title: "Node"})\<close>.\<close>

definition titled_db :: db where
  "titled_db = default_db
     \<lparr>data := JObj [(''doc'', JObj [(''title'', JStr ''Node'')])],
      indexManager := \<lparr>indexes = [(''node'', [''doc''])],
                        index_fields = [''title'', ''description'']\<rparr>\<rparr>"

section \<open>Properties\<close>

subsection \<open>Own properties\<close>

lemma map_of_insert_index:
  "k \<notin> fst ` set ps \<Longrightarrow> map_of (insert_index ps i k v) = (map_of ps)(k \<mapsto> v)"
  by (induction ps i k v rule: insert_index.induct) (auto split: option.splits)

lemma map_of_update_all:
  "map_of (map (\<lambda>(k', v'). if k' = k then (k', v) else (k', v')) ps) k' =
     (if k' = k then (if k \<in> fst ` set ps then Some v else None) else map_of ps k')"
  by (induction ps) (force+)

lemma map_of_obj_put: "map_of (obj_put ps k v) k' = (if k' = k then Some v else map_of ps k')"
proof (cases "k \<in> fst ` set ps")
  case True
  then show ?thesis by (simp add: obj_put_def map_of_update_all)
next
  case False
  then have n: "map_of ps k = None" by (simp add: map_of_eq_None_iff)
  show ?thesis
  proof (cases "parse_index k")
    case None
    with False n show ?thesis by (auto simp: obj_put_def map_add_def split: option.splits)
  next
    case (Some i)
    with False n show ?thesis by (simp add: obj_put_def map_of_insert_index)
  qed
qed

lemma map_of_obj_del: "map_of (obj_del ps k) k' = (if k' = k then None else map_of ps k')"
  unfolding obj_del_def by (induction ps) auto

lemma get_put_prop_same: "is_container obj \<Longrightarrow> get_prop (put_prop obj k v) k = Some v"
  by (cases obj) (auto simp: map_of_obj_put nth_append split: option.splits)

lemma is_container_put_prop [simp]: "is_container (put_prop obj k v) = is_container obj"
  by (cases obj) (auto split: option.splits)

lemma get_del_prop_same: "get_prop (del_prop obj k) k = None"
  by (cases obj) (auto simp: map_of_obj_del split: option.splits)

lemma get_prop_Some_container: "get_prop obj k = Some c \<Longrightarrow> is_container obj"
  by (cases obj) auto


text \<open>
  An array index has one spelling only, so reading a key is not disturbed by writing or
  deleting another key.
\<close>

lemma dec_val_snoc: "dec_val (s @ [c]) = 10 * dec_val s + int (digit_val c)"
  by (simp add: dec_val_def)

lemma digit_char: "is_digit c \<Longrightarrow> digit_val c < 10 \<and> ''0123456789'' ! digit_val c = c"
  by (auto simp: is_digit_def digit_val_def)

lemma digit_zero: "is_digit c \<Longrightarrow> digit_val c = 0 \<Longrightarrow> c = CHR ''0''"
  by (auto simp: is_digit_def digit_val_def split: if_splits)

lemma dec_val_nonneg: "0 \<le> dec_val s"
  by (induction s rule: rev_induct) (simp_all add: dec_val_def)

lemma dec_val_pos:
  "s \<noteq> [] \<Longrightarrow> list_all is_digit s \<Longrightarrow> hd s \<noteq> CHR ''0'' \<Longrightarrow> 1 \<le> dec_val s"
proof (induction s rule: rev_induct)
  case Nil
  then show ?case by simp
next
  case (snoc c s)
  show ?case
  proof (cases "s = []")
    case True
    with snoc.prems digit_zero[of c] have "digit_val c \<noteq> 0" by auto
    with True show ?thesis by (simp add: dec_val_def)
  next
    case False
    with snoc have "1 \<le> dec_val s" by simp
    then show ?thesis unfolding dec_val_snoc by simp
  qed
qed

lemma show_nat_dec_val:
  "s \<noteq> [] \<Longrightarrow> list_all is_digit s \<Longrightarrow> (1 < length s \<longrightarrow> hd s \<noteq> CHR ''0'') \<Longrightarrow>
   show_nat (nat (dec_val s)) = s"
proof (induction s rule: rev_induct)
  case Nil
  then show ?case by simp
next
  case (snoc c s)
  from snoc.prems have dc: "is_digit c" by simp
  note d = digit_char[OF dc]
  show ?case
  proof (cases "s = []")
    case True
    then have "dec_val (s @ [c]) = int (digit_val c)" by (simp add: dec_val_def)
    with d True show ?thesis by (subst show_nat.simps) simp
  next
    case False
    with snoc.prems have hd: "hd s \<noteq> CHR ''0''" "list_all is_digit s" by auto
    with False have pos: "1 \<le> dec_val s" by (intro dec_val_pos)
    have IH: "show_nat (nat (dec_val s)) = s" using snoc.IH False hd by simp
    have v: "nat (dec_val (s @ [c])) = 10 * nat (dec_val s) + digit_val c"
      unfolding dec_val_snoc using pos by (simp add: nat_add_distrib nat_mult_distrib)
    have ge: "\<not> 10 * nat (dec_val s) + digit_val c < 10" using pos by simp
    have dv: "(10 * nat (dec_val s) + digit_val c) div 10 = nat (dec_val s)"
      "(10 * nat (dec_val s) + digit_val c) mod 10 = digit_val c"
      using d by simp_all
    show ?thesis
      unfolding v by (subst show_nat.simps) (simp only: ge if_False dv IH d)
  qed
qed

lemma parse_index_show: "parse_index s = Some n \<Longrightarrow> s = show_nat n"
proof -
  assume p: "parse_index s = Some n"
  then have c: "s \<noteq> []" "list_all is_digit s" "1 < length s \<longrightarrow> hd s \<noteq> CHR ''0''"
    and n: "n = nat (dec_val s)"
    by (auto simp: parse_index_def Let_def split: if_splits)
  from show_nat_dec_val[OF c] n show ?thesis by simp
qed

lemma parse_index_inj: "parse_index k = Some i \<Longrightarrow> parse_index l = Some i \<Longrightarrow> k = l"
  using parse_index_show by metis

lemma get_prop_del_prop_other: "k \<noteq> l \<Longrightarrow> get_prop (del_prop d l) k = get_prop d k"
proof (cases d)
  case (JArr es ps)
  assume kl: "k \<noteq> l"
  show ?thesis
  proof (cases "parse_index l")
    case None
    with JArr kl show ?thesis by (simp add: map_of_obj_del split: option.splits)
  next
    case (Some i)
    show ?thesis
    proof (cases "parse_index k")
      case None
      with JArr Some show ?thesis by simp
    next
      case (Some j)
      with \<open>parse_index l = Some i\<close> kl parse_index_inj have "i \<noteq> j" by metis
      with JArr Some \<open>parse_index l = Some i\<close> show ?thesis by simp
    qed
  qed
qed (simp_all add: map_of_obj_del)

lemma get_prop_put_prop_other: "k \<noteq> l \<Longrightarrow> get_prop (put_prop d l x) k = get_prop d k"
proof (cases d)
  case (JArr es ps)
  assume kl: "k \<noteq> l"
  show ?thesis
  proof (cases "parse_index l")
    case None
    with JArr kl show ?thesis by (simp add: map_of_obj_put split: option.splits)
  next
    case (Some i)
    show ?thesis
    proof (cases "parse_index k")
      case None
      with JArr Some show ?thesis by simp
    next
      case (Some j)
      with \<open>parse_index l = Some i\<close> kl parse_index_inj have "i \<noteq> j" by metis
      with JArr Some \<open>parse_index l = Some i\<close> show ?thesis
        by (auto simp: nth_append nth_Cons' less_Suc_eq)
    qed
  qed
qed (simp_all add: map_of_obj_put)

subsection \<open>Writing and reading a path\<close>



lemma runHooks_fields:
  "runHooks s kind action payload = (r, s') \<Longrightarrow>
     data s' = data s \<and> separator s' = separator s \<and> expires s' = expires s \<and>
     indexManager s' = indexManager s \<and> autoFile s' = autoFile s \<and> schema s' = schema s \<and>
     hooks_pre s' = hooks_pre s \<and> hooks_post s' = hooks_post s"
  by (auto simp: runHooks_def split: prod.splits)

lemma emit_fields [simp]:
  "data (emit s ty p) = data s" "separator (emit s ty p) = separator s"
  "expires (emit s ty p) = expires s" "indexManager (emit s ty p) = indexManager s"
  "autoFile (emit s ty p) = autoFile s" "schema (emit s ty p) = schema s"
  "hooks_pre (emit s ty p) = hooks_pre s" "hooks_post (emit s ty p) = hooks_post s"
  by (simp_all add: emit_def)

lemma scheduleSave_fields [simp]:
  "data (scheduleSave s) = data s" "separator (scheduleSave s) = separator s"
  "expires (scheduleSave s) = expires s" "indexManager (scheduleSave s) = indexManager s"
  "autoFile (scheduleSave s) = autoFile s" "schema (scheduleSave s) = schema s"
  "hooks_pre (scheduleSave s) = hooks_pre s" "hooks_post (scheduleSave s) = hooks_post s"
  by (simp_all add: scheduleSave_def)

lemma setSync_fields:
  "expires (snd (setSync s k v)) = expires s"
  "separator (snd (setSync s k v)) = separator s"
  "autoFile (snd (setSync s k v)) = autoFile s"
  "hooks_pre (snd (setSync s k v)) = hooks_pre s"
  "hooks_post (snd (setSync s k v)) = hooks_post s"
  by (simp_all add: setSync_def Let_def split: sum.splits)

lemma deleteSync_fields:
  "expires (snd (deleteSync s k)) = expires s"
  "separator (snd (deleteSync s k)) = separator s"
  "autoFile (snd (deleteSync s k)) = autoFile s"
  "hooks_pre (snd (deleteSync s k)) = hooks_pre s"
  "hooks_post (snd (deleteSync s k)) = hooks_post s"
  by (simp_all add: deleteSync_def Let_def split: sum.splits option.splits)

lemma setSync_result:
  assumes "resolvePath (separator s) k = Inr segs"
  shows "fst (setSync s k v) = Inr v"
    and "separator (snd (setSync s k v)) = separator s"
    and "expires (snd (setSync s k v)) = expires s"
    and "data (snd (setSync s k v)) =
           modify_at (create_path (data s) (butlast segs)) (butlast segs)
             (\<lambda>r. put_prop r (last_segment segs) v)"
  using assms by (simp_all add: setSync_def Let_def)


lemma getSync_cong:
  "data s = data s' \<Longrightarrow> separator s = separator s' \<Longrightarrow> getSync s k = getSync s' k"
  by (simp add: getSync_def split: sum.splits)





lemma set_db_steps:
  assumes "fst (set_db s now k v ttl) = Inr r"
  obtains s1 s2 s4 where
    "runHooks s Pre ''set'' (JObj [(''key'', JStr k), (''value'', v)]) = (None, s1)"
    "setSync s1 k v = (Inr r, s2)"
    "runHooks (s2\<lparr>expires :=
                 (case ttl of
                    Some t \<Rightarrow> if 0 < t then obj_put (expires s2) k (now + t)
                              else obj_del (expires s2) k
                  | None \<Rightarrow> obj_del (expires s2) k)\<rparr>) Post ''set''
        (JObj [(''key'', JStr k), (''value'', v)]) = (None, s4)"
    "snd (set_db s now k v ttl) = s4"
  using assms
  by (auto simp: set_db_def Let_def split: option.splits prod.splits sum.splits)

lemma delete_steps:
  assumes "fst (delete s k) = Inr ok"
  obtains s1 s2 s3 where
    "runHooks s Pre ''delete'' (JObj [(''key'', JStr k)]) = (None, s1)"
    "deleteSync s1 k = (Inr ok, s2)"
    "runHooks (s2\<lparr>expires := obj_del (expires s2) k\<rparr>) Post ''delete''
        (JObj [(''key'', JStr k)]) = (None, s3)"
    "snd (delete s k) = s3"
  using assms
  by (auto simp: delete_def split: option.splits prod.splits sum.splits)





subsection \<open>Deleting a path\<close>

lemma present_iff_walk:
  "(case walk_ref d path of None \<Rightarrow> False | Some r \<Rightarrow> has_prop r l) =
     (getSync_walk d (path @ [l]) \<noteq> None)"
proof (induction path arbitrary: d)
  case Nil
  show ?case by (cases d) (auto simp: has_prop_def split: option.splits)
next
  case (Cons k ks)
  show ?case
  proof (cases "get_prop d k")
    case None
    then show ?thesis by (simp add: has_prop_def)
  next
    case (Some c)
    then have d: "d \<noteq> JNull" "typeof_object d" "has_prop d k"
      by (cases d; simp add: has_prop_def)+
    show ?thesis
    proof (cases "c = JNull \<or> \<not> typeof_object c")
      case True
      then have "getSync_walk c (ks @ [l]) = None" by (cases "ks @ [l]") auto
      with True Some d show ?thesis by auto
    next
      case False
      with Some d Cons.IH[of c] show ?thesis by simp
    qed
  qed
qed

lemma absent_after_delete:
  "walk_ref d path = Some r \<Longrightarrow>
   getSync_walk (modify_at d path (\<lambda>r. del_prop r l)) (path @ [l]) = None"
proof (induction path arbitrary: d)
  case Nil
  show ?case by (simp add: has_prop_def get_del_prop_same)
next
  case (Cons k ks)
  from Cons.prems obtain c where c: "get_prop d k = Some c" "walk_ref c ks = Some r"
    by (auto split: option.splits if_splits)
  have cont: "is_container d" using c(1) by (rule get_prop_Some_container)
  let ?Y = "modify_at c ks (\<lambda>r. del_prop r l)"
  have g: "get_prop (put_prop d k ?Y) k = Some ?Y" using cont by (rule get_put_prop_same)
  have "getSync_walk (put_prop d k ?Y) (k # ks @ [l]) = getSync_walk ?Y (ks @ [l])"
    using g cont by (cases "put_prop d k ?Y") (auto simp: has_prop_def)
  with Cons.IH[OF c(2)] c(1) show ?case by simp
qed

lemma deleteSync_result:
  assumes "resolvePath (separator s) k = Inr segs"
  shows "fst (deleteSync s k) =
           Inr (case walk_ref (data s) (butlast segs) of
                  None \<Rightarrow> False | Some r \<Rightarrow> has_prop r (last_segment segs))"
    and "separator (snd (deleteSync s k)) = separator s"
    and "expires (snd (deleteSync s k)) = expires s"
    and "data (snd (deleteSync s k)) =
           (case walk_ref (data s) (butlast segs) of
              None \<Rightarrow> data s
            | Some r \<Rightarrow> if has_prop r (last_segment segs)
                        then modify_at (data s) (butlast segs) (\<lambda>r. del_prop r (last_segment segs))
                        else data s)"
  using assms by (simp_all add: deleteSync_def Let_def split: option.splits)

lemma deleteSync_then_getSync:
  assumes "resolvePath (separator s) k = Inr segs" and "segs \<noteq> []"
  shows "fst (deleteSync s k) = Inr (getSync s k \<noteq> Inr None)"
    and "getSync (snd (deleteSync s k)) k = Inr None"
proof -
  have l: "last_segment segs = last segs" using assms(2) by (simp add: last_segment_def)
  have segs: "butlast segs @ [last segs] = segs" using assms(2) by simp
  have p: "(case walk_ref (data s) (butlast segs) of None \<Rightarrow> False | Some r \<Rightarrow> has_prop r (last segs)) =
     (getSync_walk (data s) segs \<noteq> None)"
    using present_iff_walk[where d = "data s" and path = "butlast segs" and l = "last segs"] segs by simp
  show "fst (deleteSync s k) = Inr (getSync s k \<noteq> Inr None)"
    unfolding deleteSync_result(1)[OF assms(1)] l using assms(1) p by (simp add: getSync_def)
  have "getSync_walk (data (snd (deleteSync s k))) segs = None"
  proof (cases "walk_ref (data s) (butlast segs)")
    case None
    with p show ?thesis by (simp add: deleteSync_result(4)[OF assms(1)])
  next
    case (Some r)
    show ?thesis
    proof (cases "has_prop r (last segs)")
      case True
      with Some absent_after_delete[OF Some, where l = "last segs"] segs show ?thesis
        by (simp add: deleteSync_result(4)[OF assms(1)] l)
    next
      case False
      with Some p show ?thesis by (simp add: deleteSync_result(4)[OF assms(1)] l)
    qed
  qed
  then show "getSync (snd (deleteSync s k)) k = Inr None"
    using assms(1) by (simp add: getSync_def deleteSync_result(2)[OF assms(1)])
qed


lemma typeof_object_del_prop [simp]: "typeof_object (del_prop d l) = typeof_object d"
  by (cases d) (auto split: option.splits)

lemma del_prop_JNull [simp]: "(del_prop d l = JNull) = (d = JNull)"
  by (cases d) (auto split: option.splits)

lemma absent_kept_by_delete:
  "getSync_walk d segs = None \<Longrightarrow>
   getSync_walk (modify_at d p (\<lambda>r. del_prop r l)) segs = None"
proof (induction p arbitrary: d segs)
  case Nil
  then obtain k ks where segs: "segs = k # ks" by (cases segs) auto
  show ?case
  proof (cases "k = l")
    case True
    then show ?thesis by (simp add: segs has_prop_def get_del_prop_same)
  next
    case False
    with Nil show ?thesis
      by (auto simp: segs has_prop_def get_prop_del_prop_other split: if_splits option.splits)
  qed
next
  case (Cons k' p')
  then obtain k ks where segs: "segs = k # ks" by (cases segs) auto
  show ?case
  proof (cases "get_prop d k'")
    case None
    with Cons.prems show ?thesis by simp
  next
    case (Some c)
    then have cont: "is_container d" by (rule get_prop_Some_container)
    let ?X = "modify_at c p' (\<lambda>r. del_prop r l)"
    have obj: "put_prop d k' ?X \<noteq> JNull" "typeof_object (put_prop d k' ?X)"
      "d \<noteq> JNull" "typeof_object d"
      using cont by (cases d; simp split: option.splits)+
    show ?thesis
    proof (cases "k = k'")
      case True
      with Cons.prems Some obj have "getSync_walk c ks = None"
        by (simp add: segs has_prop_def)
      from Cons.IH[OF this] True Some obj cont show ?thesis
        by (simp add: segs has_prop_def get_put_prop_same)
    next
      case False
      with Cons.prems Some obj show ?thesis
        by (auto simp: segs has_prop_def get_prop_put_prop_other split: if_splits option.splits)
    qed
  qed
qed

lemma deleteSync_keeps_absent:
  "getSync_walk (data s) segs = None \<Longrightarrow>
   getSync_walk (data (snd (deleteSync s k'))) segs = None"
  by (auto simp: deleteSync_def Let_def absent_kept_by_delete split: sum.splits option.splits)

lemma cleanup_loop_keeps_absent:
  "getSync_walk (data s) segs = None \<Longrightarrow> cleanup_loop now es s c = (r, s', c') \<Longrightarrow>
   getSync_walk (data s') segs = None"
proof (induction es arbitrary: s c)
  case Nil
  then show ?case by simp
next
  case (Cons x es)
  obtain k e where x: "x = (k, e)" by (cases x)
  show ?case
  proof (cases "e \<le> now")
    case False
    with Cons x show ?thesis by simp
  next
    case True
    obtain res s1 where d: "deleteSync s k = (res, s1)" by (cases "deleteSync s k")
    have a1: "getSync_walk (data s1) segs = None"
      using deleteSync_keeps_absent[OF Cons.prems(1), of k] d by simp
    show ?thesis
    proof (cases res)
      case (Inl err)
      with Cons.prems(2) x True d a1 show ?thesis by simp
    next
      case (Inr ok)
      with Cons.prems(2) x True d
      have "cleanup_loop now es (s1\<lparr>expires := obj_del (expires s1) k\<rparr>) True = (r, s', c')"
        by simp
      from Cons.IH[OF _ this] a1 show ?thesis by simp
    qed
  qed
qed

lemma cleanup_loop_separator:
  "cleanup_loop now es s c = (r, s', c') \<Longrightarrow> separator s' = separator s"
proof (induction es arbitrary: s c)
  case Nil
  then show ?case by simp
next
  case (Cons x es)
  obtain k e where x: "x = (k, e)" by (cases x)
  show ?case
  proof (cases "e \<le> now")
    case False
    with Cons x show ?thesis by simp
  next
    case True
    obtain res s1 where d: "deleteSync s k = (res, s1)" by (cases "deleteSync s k")
    have a1: "separator s1 = separator s"
      using deleteSync_fields(2)[of s k] d by simp
    show ?thesis
    proof (cases res)
      case (Inl err)
      with Cons.prems x True d a1 show ?thesis by simp
    next
      case (Inr ok)
      with Cons.prems x True d
      have "cleanup_loop now es (s1\<lparr>expires := obj_del (expires s1) k\<rparr>) True = (r, s', c')"
        by simp
      from Cons.IH[OF this] a1 show ?thesis by simp
    qed
  qed
qed









subsection \<open>Search\<close>









text \<open>
  The specification's example: with \<open>docs.1\<close> titled "Node Guide" and \<open>docs.2\<close> titled
  "JS Intro", a search for "Node" gives \<open>docs.1\<close> only.
\<close>

lemma docs_db_built:
  "data (snd (setSync default_db ''docs.1'' (JObj [(''title'', JStr ''Node Guide'')]))) = data docs1_db \<and>
   indexManager (snd (setSync default_db ''docs.1'' (JObj [(''title'', JStr ''Node Guide'')]))) = indexManager docs1_db \<and>
   data (snd (setSync docs1_db ''docs.2'' (JObj [(''title'', JStr ''JS Intro'')]))) = data docs_db \<and>
   indexManager (snd (setSync docs1_db ''docs.2'' (JObj [(''title'', JStr ''JS Intro'')]))) = indexManager docs_db"
  by code_simp


subsection \<open>Hooks, events and the expiry table\<close>

lemma run_hook_list_ok:
  "run_hook_list kind action payload hs tr = (None, tr') \<Longrightarrow>
   tr' = tr @ map (HookRun kind action) (map fst hs)"
proof (induction hs arbitrary: tr)
  case Nil
  then show ?case by simp
next
  case (Cons h hs)
  obtain name fails where h: "h = (name, fails)" by (cases h)
  from Cons.prems h have nf: "\<not> fails payload" by (auto split: if_splits)
  with Cons.prems h have "run_hook_list kind action payload hs (tr @ [HookRun kind action name]) = (None, tr')"
    by simp
  from Cons.IH[OF this] h show ?case by simp
qed

lemma runHooks_ok_trace:
  "runHooks s kind action payload = (None, s') \<Longrightarrow>
   trace s' = trace s @ map (HookRun kind action) (map fst (hooks_for s kind action))"
  by (auto simp: runHooks_def split: prod.splits dest: run_hook_list_ok)

lemma hooks_for_cong:
  "hooks_pre s' = hooks_pre s \<Longrightarrow> hooks_post s' = hooks_post s \<Longrightarrow>
   hooks_for s' kind action = hooks_for s kind action"
  by (cases kind) (simp_all add: hooks_for_def)

lemma setSync_trace:
  "fst (setSync s k v) = Inr r \<Longrightarrow>
   trace (snd (setSync s k v)) =
     trace s @ [Wrote k, Emitted ''set'' (JObj [(''key'', JStr k), (''value'', v)]),
                Emitted ''change'' (JObj [(''type'', JStr ''set''), (''key'', JStr k), (''value'', v)])] @
     (if autoFile s then [SaveScheduled] else [])"
  by (simp add: setSync_def Let_def emit_def scheduleSave_def split: sum.splits)

lemma deleteSync_trace:
  "fst (deleteSync s k) = Inr ok \<Longrightarrow>
   trace (snd (deleteSync s k)) =
     trace s @ (if ok then [Removed k, Emitted ''delete'' (JObj [(''key'', JStr k)]),
                Emitted ''change'' (JObj [(''type'', JStr ''delete''), (''key'', JStr k)])] @
     (if autoFile s then [SaveScheduled] else []) else [])"
  by (auto simp: deleteSync_def Let_def emit_def scheduleSave_def split: sum.splits option.splits)

text \<open>
  Claim C10. When \<open>set(k, v)\<close> returns and its options carry no positive \<open>ttlMs\<close>,
  the expiry table has no entry for \<open>k\<close> afterwards, and every other entry is as it
  was.
\<close>

theorem set_without_ttl_clears_expiry:
  assumes "fst (set_db s now k v ttl) = Inr r" and "\<not> (\<exists>t. ttl = Some t \<and> 0 < t)"
  shows "map_of (expires (snd (set_db s now k v ttl))) k = None \<and>
         (\<forall>k'. k' \<noteq> k \<longrightarrow> map_of (expires (snd (set_db s now k v ttl))) k' = map_of (expires s) k')"
proof -
  from assms(1) obtain s1 s2 s4 where st:
    "runHooks s Pre ''set'' (JObj [(''key'', JStr k), (''value'', v)]) = (None, s1)"
    "setSync s1 k v = (Inr r, s2)"
    "runHooks (s2\<lparr>expires :=
                 (case ttl of
                    Some t \<Rightarrow> if 0 < t then obj_put (expires s2) k (now + t)
                              else obj_del (expires s2) k
                  | None \<Rightarrow> obj_del (expires s2) k)\<rparr>) Post ''set''
        (JObj [(''key'', JStr k), (''value'', v)]) = (None, s4)"
    "snd (set_db s now k v ttl) = s4"
    by (rule set_db_steps)
  have e2: "expires s2 = expires s"
    using setSync_fields(1)[of s1 k v] st(2) runHooks_fields[OF st(1)] by simp
  have "(case ttl of
                    Some t \<Rightarrow> if 0 < t then obj_put (expires s2) k (now + t)
                              else obj_del (expires s2) k
                  | None \<Rightarrow> obj_del (expires s2) k) = obj_del (expires s) k"
    using assms(2) e2 by (cases ttl) auto
  with runHooks_fields[OF st(3)] st(4)
  have "expires (snd (set_db s now k v ttl)) = obj_del (expires s) k" by simp
  then show ?thesis by (simp add: map_of_obj_del)
qed

theorem set_without_ttl_clears_expiry_witness:
  "map_of (expires session_db) ''session.token'' = Some 5000 \<and>
   map_of (expires (snd (set_db session_db 10 ''session.token'' (JStr ''new'') None))) ''session.token'' = None"
proof -
  have h0: "map_of (expires session_db) ''session.token'' = Some 5000" by code_simp
  have h1: "fst (set_db session_db 10 ''session.token'' (JStr ''new'') None) = Inr (JStr ''new'')"
    by code_simp
  have h2: "\<not> (\<exists>t. (None :: int option) = Some t \<and> 0 < t)" by simp
  from set_without_ttl_clears_expiry[OF h1 h2] h0 show ?thesis by simp
qed

lemma set_db_trace:
  assumes "fst (set_db s now k v ttl) = Inr r"
  shows "trace (snd (set_db s now k v ttl)) =
        trace s @ map (HookRun Pre ''set'') (map fst (hooks_for s Pre ''set'')) @
        [Wrote k,
         Emitted ''set'' (JObj [(''key'', JStr k), (''value'', v)]),
         Emitted ''change'' (JObj [(''type'', JStr ''set''), (''key'', JStr k), (''value'', v)])] @
        (if autoFile s then [SaveScheduled] else []) @
        map (HookRun Post ''set'') (map fst (hooks_for s Post ''set''))"
proof -

  from assms obtain s1 s2 s4 where st:
    "runHooks s Pre ''set'' (JObj [(''key'', JStr k), (''value'', v)]) = (None, s1)"
    "setSync s1 k v = (Inr r, s2)"
    "runHooks (s2\<lparr>expires :=
                 (case ttl of
                    Some t \<Rightarrow> if 0 < t then obj_put (expires s2) k (now + t)
                              else obj_del (expires s2) k
                  | None \<Rightarrow> obj_del (expires s2) k)\<rparr>) Post ''set''
        (JObj [(''key'', JStr k), (''value'', v)]) = (None, s4)"
    "snd (set_db s now k v ttl) = s4"
    by (rule set_db_steps)
  let ?s3 = "s2\<lparr>expires :=
                 (case ttl of
                    Some t \<Rightarrow> if 0 < t then obj_put (expires s2) k (now + t)
                              else obj_del (expires s2) k
                  | None \<Rightarrow> obj_del (expires s2) k)\<rparr>"
  have t1: "trace s1 = trace s @ map (HookRun Pre ''set'') (map fst (hooks_for s Pre ''set''))"
    using st(1) by (rule runHooks_ok_trace)
  have f1: "autoFile s1 = autoFile s" "hooks_pre s1 = hooks_pre s" "hooks_post s1 = hooks_post s"
    using runHooks_fields[OF st(1)] by simp_all
  have t2: "trace s2 = trace s1 @ [Wrote k, Emitted ''set'' (JObj [(''key'', JStr k), (''value'', v)]),
                Emitted ''change'' (JObj [(''type'', JStr ''set''), (''key'', JStr k), (''value'', v)])] @
     (if autoFile s1 then [SaveScheduled] else [])"
    using setSync_trace[of s1 k v r] st(2) by simp
  have f2: "hooks_pre s2 = hooks_pre s1" "hooks_post s2 = hooks_post s1"
    using setSync_fields(4,5)[of s1 k v] st(2) by simp_all
  have h3: "hooks_for ?s3 Post ''set'' = hooks_for s Post ''set''"
    using f1 f2 by (intro hooks_for_cong) simp_all
  have t4: "trace s4 = trace ?s3 @ map (HookRun Post ''set'') (map fst (hooks_for ?s3 Post ''set''))"
    using st(3) by (rule runHooks_ok_trace)
  show ?thesis
    unfolding st(4) t4 h3 using t1 t2 f1 by simp
qed

lemma delete_trace:
  assumes "fst (delete s k) = Inr True"
  shows "trace (snd (delete s k)) =
        trace s @ map (HookRun Pre ''delete'') (map fst (hooks_for s Pre ''delete'')) @
        [Removed k,
         Emitted ''delete'' (JObj [(''key'', JStr k)]),
         Emitted ''change'' (JObj [(''type'', JStr ''delete''), (''key'', JStr k)])] @
        (if autoFile s then [SaveScheduled] else []) @
        map (HookRun Post ''delete'') (map fst (hooks_for s Post ''delete''))"
proof -

  from assms obtain s1 s2 s3 where st:
    "runHooks s Pre ''delete'' (JObj [(''key'', JStr k)]) = (None, s1)"
    "deleteSync s1 k = (Inr True, s2)"
    "runHooks (s2\<lparr>expires := obj_del (expires s2) k\<rparr>) Post ''delete''
        (JObj [(''key'', JStr k)]) = (None, s3)"
    "snd (delete s k) = s3"
    by (rule delete_steps)
  let ?s2' = "s2\<lparr>expires := obj_del (expires s2) k\<rparr>"
  have t1: "trace s1 = trace s @ map (HookRun Pre ''delete'') (map fst (hooks_for s Pre ''delete''))"
    using st(1) by (rule runHooks_ok_trace)
  have f1: "autoFile s1 = autoFile s" "hooks_pre s1 = hooks_pre s" "hooks_post s1 = hooks_post s"
    using runHooks_fields[OF st(1)] by simp_all
  have t2: "trace s2 = trace s1 @ [Removed k, Emitted ''delete'' (JObj [(''key'', JStr k)]),
                Emitted ''change'' (JObj [(''type'', JStr ''delete''), (''key'', JStr k)])] @
     (if autoFile s1 then [SaveScheduled] else [])"
    using deleteSync_trace[of s1 k True] st(2) by simp
  have f2: "hooks_pre s2 = hooks_pre s1" "hooks_post s2 = hooks_post s1"
    using deleteSync_fields(4,5)[of s1 k] st(2) by simp_all
  have h3: "hooks_for ?s2' Post ''delete'' = hooks_for s Post ''delete''"
    using f1 f2 by (intro hooks_for_cong) simp_all
  have t4: "trace s3 = trace ?s2' @ map (HookRun Post ''delete'') (map fst (hooks_for ?s2' Post ''delete''))"
    using st(3) by (rule runHooks_ok_trace)
  show ?thesis
    unfolding st(4) t4 h3 using t1 t2 f1 by simp
qed

text \<open>
  Claim C8, as the code has it. The effects of a \<open>set\<close> that returns, and of a
  \<open>delete\<close> that removes its key, are in this order: the \<open>pre\<close> hooks, the change of
  the tree, the event of the operation, the \<open>change\<close> event, the scheduling of the save,
  and only then the \<open>post\<close> hooks. The events follow the mutation and come before the
  \<open>post\<close> hooks.
\<close>

theorem events_before_post_hooks:
  "(fst (set_db s now k v ttl) = Inr r \<longrightarrow>
      trace (snd (set_db s now k v ttl)) =
        trace s @ map (HookRun Pre ''set'') (map fst (hooks_for s Pre ''set'')) @
        [Wrote k,
         Emitted ''set'' (JObj [(''key'', JStr k), (''value'', v)]),
         Emitted ''change'' (JObj [(''type'', JStr ''set''), (''key'', JStr k), (''value'', v)])] @
        (if autoFile s then [SaveScheduled] else []) @
        map (HookRun Post ''set'') (map fst (hooks_for s Post ''set''))) \<and>
   (fst (delete s k) = Inr True \<longrightarrow>
      trace (snd (delete s k)) =
        trace s @ map (HookRun Pre ''delete'') (map fst (hooks_for s Pre ''delete'')) @
        [Removed k,
         Emitted ''delete'' (JObj [(''key'', JStr k)]),
         Emitted ''change'' (JObj [(''type'', JStr ''delete''), (''key'', JStr k)])] @
        (if autoFile s then [SaveScheduled] else []) @
        map (HookRun Post ''delete'') (map fst (hooks_for s Post ''delete'')))"
  using set_db_trace delete_trace by blast

text \<open>
  With a \<open>post\<close> hook registered for \<open>set\<close>, both events are emitted before that hook
  runs.
\<close>

theorem events_before_post_hooks_counterexample:
  "trace (snd (set_db hooked_db 0 ''b'' (JNum 2) None)) =
     [HookRun Pre ''set'' ''check'',
      Wrote ''b'',
      Emitted ''set'' (JObj [(''key'', JStr ''b''), (''value'', JNum 2)]),
      Emitted ''change'' (JObj [(''type'', JStr ''set''), (''key'', JStr ''b''), (''value'', JNum 2)]),
      SaveScheduled,
      HookRun Post ''set'' ''audit'']"
proof -
  have h: "fst (set_db hooked_db 0 ''b'' (JNum 2) None) = Inr (JNum 2)" by code_simp
  have e: "trace hooked_db = []" "autoFile hooked_db = True"
    "map fst (hooks_for hooked_db Pre ''set'') = [''check'']"
    "map fst (hooks_for hooked_db Post ''set'') = [''audit'']"
    by code_simp+
  show ?thesis using set_db_trace[OF h] e by simp
qed

theorem events_before_post_hooks_witness:
  "trace (snd (set_db hooked_db 0 ''a'' (JNum 2) (Some 50))) =
     [HookRun Pre ''set'' ''check'',
      Wrote ''a'',
      Emitted ''set'' (JObj [(''key'', JStr ''a''), (''value'', JNum 2)]),
      Emitted ''change'' (JObj [(''type'', JStr ''set''), (''key'', JStr ''a''), (''value'', JNum 2)]),
      SaveScheduled,
      HookRun Post ''set'' ''audit''] \<and>
   trace (snd (delete hooked_db ''a'')) =
     [HookRun Pre ''delete'' ''check'',
      Removed ''a'',
      Emitted ''delete'' (JObj [(''key'', JStr ''a'')]),
      Emitted ''change'' (JObj [(''type'', JStr ''delete''), (''key'', JStr ''a'')]),
      SaveScheduled,
      HookRun Post ''delete'' ''audit'']"
proof -
  have h1: "fst (set_db hooked_db 0 ''a'' (JNum 2) (Some 50)) = Inr (JNum 2)" by code_simp
  have h2: "fst (delete hooked_db ''a'') = Inr True" by code_simp
  have e: "trace hooked_db = []" "autoFile hooked_db = True"
    "map fst (hooks_for hooked_db Pre ''set'') = [''check'']"
    "map fst (hooks_for hooked_db Post ''set'') = [''audit'']"
    "map fst (hooks_for hooked_db Pre ''delete'') = [''check'']"
    "map fst (hooks_for hooked_db Post ''delete'') = [''audit'']"
    by code_simp+
  from events_before_post_hooks[of hooked_db 0 "''a''" "JNum 2" "Some 50" "JNum 2"] h1 h2
  show ?thesis using e by simp
qed


subsection \<open>Array helpers\<close>


lemma setSync_case:
  assumes "resolvePath (separator s) k = Inr segs"
  shows "(case setSync s k v of (Inl e, s2) \<Rightarrow> f e s2 | (Inr r, s2) \<Rightarrow> g r s2) =
           g v (snd (setSync s k v))"
  using setSync_result(1)[OF assms, of v] by (cases "setSync s k v") simp









subsection \<open>Query matcher\<close>














text \<open>The specification's query examples.\<close>

lemma query_examples:
  "query users_db number_builtins ''users'' (JObj [(''age'', JObj [(''$gte'', JNum 26)])]) no_options =
     Inr [(''2'', JObj [(''name'', JStr ''Bob''), (''age'', JNum 30)])] \<and>
   query users_db number_builtins ''users'' (JObj [(''age'', JObj [(''$gte'', JNum 0)])])
     (no_options\<lparr>opt_sort := Some (''age'', - 1)\<rparr>) =
     Inr [(''2'', JObj [(''name'', JStr ''Bob''), (''age'', JNum 30)]),
          (''1'', JObj [(''name'', JStr ''Alice''), (''age'', JNum 25)])]"
  by code_simp

subsection \<open>Transactions\<close>

lemma set_db_plain:
  assumes "schema s = None" and "hooks_pre s = []" and "hooks_post s = []"
  shows "set_db s now k v ttl =
           (case setSync s k v of
              (Inl e, s2) \<Rightarrow> (Inl e, s2)
            | (Inr r, s2) \<Rightarrow>
                (Inr r, s2\<lparr>expires :=
                           (case ttl of
                              Some t \<Rightarrow> if 0 < t then obj_put (expires s2) k (now + t)
                                        else obj_del (expires s2) k
                            | None \<Rightarrow> obj_del (expires s2) k)\<rparr>))"
proof -
  have pre: "runHooks s Pre ''set'' p = (None, s)" for p
    using assms by (simp add: runHooks_def hooks_for_def)
  have post: "hooks_post s2 = [] \<Longrightarrow> runHooks s2 Post ''set'' p = (None, s2)" for p s2
    by (simp add: runHooks_def hooks_for_def)
  show ?thesis
  proof (cases "setSync s k v")
    case (Pair r s2)
    have h: "hooks_post s2 = []" using setSync_fields(5)[of s k v] Pair assms(3) by simp
    show ?thesis
      using assms(1) h by (cases r) (simp_all add: set_db_def pre post Pair Let_def)
  qed
qed

lemma transaction_failure:
  assumes "fn (workspace s) = (Some e, temp')"
  shows "transaction s fn =
           (Inl e, s\<lparr>data := json_norm (data s), indexManager := indexManager temp'\<rparr>)"
  using assms by (simp add: transaction_def Let_def)

text \<open>
  Claim C2 at a transaction that stores a titled account and then raises, on the empty
  store. The error is raised again, the tree and the expiry table are as before, but the
  index has the posting the body added: a search finds the path \<open>account\<close>, which the
  tree does not have.
\<close>

theorem transaction_rollback_keeps_index:
  "fst (transaction default_db tx_set_then_raise) = Inl (Raised ''insufficient funds'') \<and>
   data (snd (transaction default_db tx_set_then_raise)) = data default_db \<and>
   expires (snd (transaction default_db tx_set_then_raise)) = expires default_db \<and>
   indexes (indexManager default_db) = [] \<and>
   indexes (indexManager (snd (transaction default_db tx_set_then_raise))) =
     [(''savings'', [''account''])] \<and>
   search (indexManager (snd (transaction default_db tx_set_then_raise))) ''savings'' = [''account''] \<and>
   getSync (snd (transaction default_db tx_set_then_raise)) ''account'' = Inr None"
proof -
  let ?v = "JObj [(''title'', JStr ''savings''), (''balance'', JNum 100)]"
  let ?w = "workspace default_db"
  have w: "schema ?w = None" "hooks_pre ?w = []" "hooks_post ?w = []"
    by (simp_all add: workspace_def)
  have r: "resolvePath (separator ?w) ''account'' = Inr [''account'']" by code_simp
  have im: "indexManager (snd (set_db ?w 0 ''account'' ?v None)) = indexManager (snd (setSync ?w ''account'' ?v))"
    by (simp add: set_db_plain[OF w] setSync_case[OF r])
  have body: "tx_set_then_raise ?w = (Some (Raised ''insufficient funds''), snd (set_db ?w 0 ''account'' ?v None))"
    by (simp add: tx_set_then_raise_def)
  have t: "transaction default_db tx_set_then_raise =
             (Inl (Raised ''insufficient funds''),
              default_db\<lparr>data := json_norm (data default_db),
                           indexManager := indexManager (snd (setSync ?w ''account'' ?v))\<rparr>)"
    using transaction_failure[of tx_set_then_raise default_db, OF body] im by simp
  have e1: "json_norm (data default_db) = data default_db" by code_simp
  have e2: "indexes (indexManager default_db) = []" by code_simp
  have e3: "indexManager (snd (setSync ?w ''account'' ?v)) =
              \<lparr>indexes = [(''savings'', [''account''])], index_fields = [''title'', ''description'']\<rparr>"
    by code_simp
  have e4: "search \<lparr>indexes = [(''savings'', [''account''])], index_fields = [''title'', ''description'']\<rparr>
              ''savings'' = [''account'']" by code_simp
  have e5: "getSync default_db ''account'' = Inr None" by code_simp
  have g: "getSync (default_db\<lparr>data := data default_db, indexManager := im\<rparr>) ''account'' =
             getSync default_db ''account''" for im
    by (rule getSync_cong) simp_all
  show ?thesis unfolding t e1 e3 using e2 e4 e5 g by simp
qed

subsection \<open>Expiry and bulk reads\<close>

text \<open>
  What the reads that sweep do: when \<open>get\<close> returns for a key whose entry has passed, it
  returns \<open>undefined\<close>, and the key is gone from the tree and from the expiry table.
\<close>

lemma deleteSync_absent_after:
  assumes "resolvePath (separator s) k = Inr segs" and "segs \<noteq> []"
  shows "getSync_walk (data (snd (deleteSync s k))) segs = None"
  using deleteSync_then_getSync(2)[OF assms] assms(1)
  by (simp add: getSync_def deleteSync_fields(2))

lemma cleanup_loop_expires_none:
  "map_of (expires s) k = None \<Longrightarrow> cleanup_loop now es s c = (r, s', c') \<Longrightarrow>
   map_of (expires s') k = None"
proof (induction es arbitrary: s c)
  case Nil
  then show ?case by simp
next
  case (Cons x es)
  obtain k0 e0 where x: "x = (k0, e0)" by (cases x)
  show ?case
  proof (cases "e0 \<le> now")
    case False
    with Cons x show ?thesis by simp
  next
    case True
    obtain res s1 where d: "deleteSync s k0 = (res, s1)" by (cases "deleteSync s k0")
    have e1: "expires s1 = expires s" using deleteSync_fields(1)[of s k0] d by simp
    show ?thesis
    proof (cases res)
      case (Inl err)
      with Cons.prems x True d e1 show ?thesis by simp
    next
      case (Inr ok)
      with Cons.prems(2) x True d
      have "cleanup_loop now es (s1\<lparr>expires := obj_del (expires s1) k0\<rparr>) True = (r, s', c')"
        by simp
      from Cons.IH[OF _ this] Cons.prems(1) e1 show ?thesis by (simp add: map_of_obj_del)
    qed
  qed
qed

lemma cleanup_loop_removes:
  assumes "(k, e) \<in> set es" and "e \<le> now"
    and "resolvePath (separator s) k = Inr segs" and "segs \<noteq> []"
    and "cleanup_loop now es s c = (None, s', c')"
  shows "getSync_walk (data s') segs = None \<and> map_of (expires s') k = None"
  using assms
proof (induction es arbitrary: s c)
  case Nil
  then show ?case by simp
next
  case (Cons x es)
  obtain k0 e0 where x: "x = (k0, e0)" by (cases x)
  show ?case
  proof (cases "e0 \<le> now")
    case False
    with Cons.prems x have "(k, e) \<in> set es" "cleanup_loop now es s c = (None, s', c')" by auto
    with Cons.IH Cons.prems show ?thesis by blast
  next
    case True
    obtain res s1 where d: "deleteSync s k0 = (res, s1)" by (cases "deleteSync s k0")
    with Cons.prems(5) x True obtain ok where res: "res = Inr ok"
      by (cases res) auto
    let ?s1 = "s1\<lparr>expires := obj_del (expires s1) k0\<rparr>"
    have loop: "cleanup_loop now es ?s1 True = (None, s', c')"
      using Cons.prems(5) x True d res by simp
    have sep: "separator ?s1 = separator s" using deleteSync_fields(2)[of s k0] d by simp
    show ?thesis
    proof (cases "k0 = k")
      case True
      have "getSync_walk (data ?s1) segs = None"
        using deleteSync_absent_after[OF Cons.prems(3,4)] d True by simp
      moreover have "map_of (expires ?s1) k = None" using True by (simp add: map_of_obj_del)
      ultimately show ?thesis
        using cleanup_loop_keeps_absent[OF _ loop] cleanup_loop_expires_none[OF _ loop] by blast
    next
      case False
      with Cons.prems(1) x have "(k, e) \<in> set es" by auto
      from Cons.IH[OF this Cons.prems(2) _ Cons.prems(4) loop] Cons.prems(3) sep
      show ?thesis by simp
    qed
  qed
qed

lemma get_sweeps_expired:
  assumes "resolvePath (separator s) k = Inr segs" and "segs \<noteq> []"
    and "isExpired s now k" and "fst (get s now k) = Inr r"
  shows "r = None \<and> getSync (snd (get s now k)) k = Inr None \<and>
         map_of (expires (snd (get s now k))) k = None"
proof -
  from assms(3) obtain e where e: "(k, e) \<in> set (expires s)" "e \<le> now"
    by (auto simp: isExpired_def split: option.splits dest: map_of_SomeD)
  obtain res s' c' where cl: "cleanup_loop now (expires s) s False = (res, s', c')"
    by (cases "cleanup_loop now (expires s) s False") auto
  from assms(4) cl have res: "res = None"
    by (cases res) (auto simp: get_def cleanupExpiredSync_def)
  let ?s1 = "if c' then scheduleSave s' else s'"
  have c: "cleanupExpiredSync s now = (None, ?s1)"
    using cl res by (simp add: cleanupExpiredSync_def)
  from cleanup_loop_removes[OF e assms(1,2) cl[unfolded res]]
  have ab: "getSync_walk (data ?s1) segs = None" and ex: "map_of (expires ?s1) k = None"
    by simp_all
  have sep: "separator ?s1 = separator s" using cleanup_loop_separator[OF cl] by simp
  have g1: "getSync ?s1 k = Inr None" using assms(1) ab sep by (simp add: getSync_def)
  have ne: "\<not> isExpired ?s1 now k" using ex by (simp add: isExpired_def)
  have "get s now k = (Inr None, ?s1)" using c ne g1 by (simp add: get_def)
  with assms(4) g1 ex show ?thesis by simp
qed

text \<open>
  Claim C3 at a store whose document \<open>users.1\<close> expired at time 100, read at time 200.
  \<open>keys\<close>, \<open>values\<close>, \<open>entries\<close>, \<open>find\<close> and \<open>query\<close> still list the document, and
  being reads without a sweep they remove nothing; \<open>get\<close>, \<open>has\<close> and \<open>all\<close> treat it
  as absent, and \<open>get\<close> removes it from the tree and from the expiry table.
\<close>

theorem expired_key_still_listed:
  "isExpired expired_db 200 ''users.1'' \<and>
   keys expired_db ''users'' = Inr [''1''] \<and>
   values_db expired_db ''users'' = Inr [JObj [(''name'', JStr ''Alice'')]] \<and>
   entries expired_db ''users'' = Inr [(''1'', JObj [(''name'', JStr ''Alice'')])] \<and>
   find expired_db ''users'' (\<lambda>v k. True) = Inr [(''1'', JObj [(''name'', JStr ''Alice'')])] \<and>
   query expired_db number_builtins ''users'' (JObj [(''name'', JStr ''Alice'')]) no_options =
     Inr [(''1'', JObj [(''name'', JStr ''Alice'')])] \<and>
   fst (get expired_db 200 ''users.1'') = Inr None \<and>
   fst (has expired_db 200 ''users.1'') = Inr False \<and>
   fst (all expired_db 200) = Inr (JObj [(''users'', JObj [])]) \<and>
   data (snd (get expired_db 200 ''users.1'')) = JObj [(''users'', JObj [])] \<and>
   expires (snd (get expired_db 200 ''users.1'')) = [] \<and>
   keys (snd (get expired_db 200 ''users.1'')) ''users'' = Inr []"
  by code_simp

subsection \<open>Index maintenance\<close>

text \<open>
  What \<open>IndexManager.delete\<close> does to an index with one entry per token: the path
  leaves every posting set, and no entry with an empty posting set is left behind.
\<close>

lemma index_delete_keys: "fst ` set (index_delete idx k) \<subseteq> fst ` set idx"
  by (induction idx k rule: index_delete.induct) auto

lemma posting_set_index_delete:
  "distinct (map fst idx) \<Longrightarrow> posting_set (index_delete idx k) w = posting_set idx w - {k}"
proof (induction idx)
  case Nil
  show ?case by (simp add: posting_set_def)
next
  case (Cons e rest)
  obtain word ks where e: "e = (word, ks)" by (cases e)
  from Cons e have IH: "posting_set (index_delete rest k) w = posting_set rest w - {k}"
    and d: "word \<notin> fst ` set rest"
    by simp_all
  have "word \<notin> fst ` set (index_delete rest k)"
    using index_delete_keys[of rest k] d by auto
  then have none: "map_of (index_delete rest k) word = None"
    by (simp add: map_of_eq_None_iff)
  show ?case
  proof (cases "w = word")
    case True
    have "removeAll k ks = [] \<Longrightarrow> set ks - {k} = {}"
      using set_removeAll[of k ks] by simp
    then show ?thesis using True none unfolding e
      by (auto simp: posting_set_def)
  next
    case False
    with IH show ?thesis unfolding e by (simp add: posting_set_def)
  qed
qed

lemma index_delete_no_empty:
  "\<forall>(w, ks) \<in> set idx. ks \<noteq> [] \<Longrightarrow> \<forall>(w, ks) \<in> set (index_delete idx k). ks \<noteq> []"
  by (induction idx k rule: index_delete.induct) auto

text \<open>
  What \<open>IndexManager.update\<close> does to an index with one entry per token: the path
  leaves every posting set and joins those of the tokens of the value written at that
  path. No other path is added, whatever the value holds below its own fields.
\<close>

lemma posting_set_add_posting:
  "posting_set (add_posting idx w k) w' =
     (if w' = w then insert k (posting_set idx w) else posting_set idx w')"
proof (cases "w \<in> fst ` set idx")
  case False
  then have "map_of idx w = None" by (simp add: map_of_eq_None_iff)
  with False show ?thesis
    by (auto simp: add_posting_def posting_set_def map_add_def split: option.splits)
next
  case True
  have m: "map_of (map (\<lambda>(x, ks). if x = w then (x, if k \<in> set ks then ks else ks @ [k])
                           else (x, ks)) idx) w' =
           (if w' = w then map_option (\<lambda>ks. if k \<in> set ks then ks else ks @ [k]) (map_of idx w)
            else map_of idx w')"
    by (induction idx) auto
  from True obtain ks where ks: "map_of idx w = Some ks"
    by (cases "map_of idx w") (auto simp: map_of_eq_None_iff)
  from True ks show ?thesis
    by (auto simp: add_posting_def posting_set_def m split: option.splits)
qed

lemma posting_set_foldl_add:
  "posting_set (foldl (\<lambda>i w. add_posting i w k) idx ws) w' =
     posting_set idx w' \<union> (if w' \<in> set ws then {k} else {})"
  by (induction ws arbitrary: idx) (auto simp: posting_set_add_posting)

lemma posting_set_indexText:
  "posting_set (indexText idx k t) w =
     posting_set idx w \<union> (if w \<in> set (tokenize t) then {k} else {})"
  by (simp add: indexText_def posting_set_foldl_add)

lemma posting_set_fields:
  "posting_set (foldl (\<lambda>i field.
                          (case get_prop v field of
                             Some (JStr t) \<Rightarrow> if t \<noteq> [] then indexText i k t else i
                           | _ \<Rightarrow> i)) idx flds) w =
     posting_set idx w \<union>
       (if w \<in> (\<Union>f \<in> set flds. case get_prop v f of Some (JStr t) \<Rightarrow> set (tokenize t) | _ \<Rightarrow> {})
        then {k} else {})"
proof (induction flds arbitrary: idx)
  case Nil
  show ?case by simp
next
  case (Cons f flds)
  have empty: "tokenize [] = []"
    by (simp add: tokenize_def toLowerCase_def)
  show ?case
  proof (cases "get_prop v f")
    case None
    with Cons show ?thesis by simp
  next
    case (Some x)
    show ?thesis
    proof (cases x)
      case (JStr t)
      with Some Cons empty show ?thesis
        by (cases "t = []") (auto simp: posting_set_indexText)
    qed (use Some Cons in auto)
  qed
qed

lemma posting_set_index_update:
  assumes "distinct (map fst (indexes im))"
  shows "posting_set (indexes (index_update im k v)) w =
           (posting_set (indexes im) w - {k}) \<union>
           (if w \<in> doc_tokens (index_fields im) v then {k} else {})"
  using posting_set_index_delete[OF assms, of k w]
  by (simp add: index_update_def Let_def doc_tokens_def posting_set_fields)

text \<open>
  Claim C4 at three updates. After \<open>set("a", {b: {title: "x"}})\<close> on the empty store the
  nested document \<open>a.b\<close> exists and is not in the index, where a rebuild of the same
  tree indexes it. After \<open>set("doc.title", "JS")\<close> the index still lists \<open>doc\<close> under
  its old title. After \<open>delete("a")\<close> the index still lists \<open>a.b\<close>.
\<close>

theorem set_indexes_exact_path_only:
  "getSync nested_db ''a.b'' = Inr (Some (JObj [(''title'', JStr ''x'')])) \<and>
   indexes (indexManager nested_db) = [] \<and>
   search (indexManager nested_db) ''x'' = [] \<and>
   indexes (indexManager (rebuildIndex nested_db)) = [(''x'', [''a.b''])] \<and>
   getSync (snd (setSync titled_db ''doc.title'' (JStr ''JS''))) ''doc'' =
     Inr (Some (JObj [(''title'', JStr ''JS'')])) \<and>
   indexes (indexManager (snd (setSync titled_db ''doc.title'' (JStr ''JS'')))) = [(''node'', [''doc''])] \<and>
   getSync (snd (deleteSync (rebuildIndex nested_db) ''a'')) ''a.b'' = Inr None \<and>
   indexes (indexManager (snd (deleteSync (rebuildIndex nested_db) ''a''))) = [(''x'', [''a.b''])]"
  by code_simp


end
